theory Spec2Isabelle
  imports Complex_Main "HOL-Library.AList"
begin

section \<open>JavaScript values\<close>

text \<open>
  The transport of \<^verbatim>\<open>index.js\<close> handles JavaScript values in three places: the
  constructor's \<^verbatim>\<open>host\<close>, \<^verbatim>\<open>port\<close> and \<^verbatim>\<open>extra\<close>, the argument of
  \<^verbatim>\<open>send\<close>, and the result of \<^verbatim>\<open>JSON.parse\<close> that the \<^verbatim>\<open>if (message)\<close> test
  of \<^verbatim>\<open>onSocketData\<close> inspects.

  A string is modelled by the list of its UTF-8 bytes, the form it has on the wire
  (\<^verbatim>\<open>setEncoding('utf8')\<close>, \<^verbatim>\<open>write(..., 'utf8')\<close>). The operations the source applies
  to strings (concatenation, \<^verbatim>\<open>indexOf('\n')\<close>, \<^verbatim>\<open>substr\<close> at that index, comparison
  with \<^verbatim>\<open>''\<close>) give the same result on the bytes as on the code units, since the
  byte \<^verbatim>\<open>0x0A\<close> occurs in UTF-8 only as the line feed.

  A finite number is modelled by its exact rational value; \<^verbatim>\<open>-0\<close> and \<^verbatim>\<open>0\<close> are not
  distinguished. An object is the list of its own enumerable string-keyed properties
  in insertion order.
\<close>

datatype js_number = Finite rat | NaN | PosInfinity | NegInfinity

datatype js_value =
    JUndefined
  | JNull
  | JBoolean bool
  | JNumber js_number
  | JString string
  | JArray "js_value list"
  | JObject "(string \<times> js_value) list"

datatype error_name = Error | TypeError | SyntaxError | DisconnectedError

text \<open>An error object: its \<^verbatim>\<open>name\<close> and its \<^verbatim>\<open>message\<close>.\<close>

datatype js_error = JsError error_name string

text \<open>The abstract operation ToBoolean of ECMAScript, which an \<^verbatim>\<open>if\<close> applies to its condition.\<close>

fun ToBoolean :: "js_value \<Rightarrow> bool" where
  "ToBoolean JUndefined = False"
| "ToBoolean JNull = False"
| "ToBoolean (JBoolean b) = b"
| "ToBoolean (JNumber (Finite q)) = (q \<noteq> 0)"
| "ToBoolean (JNumber NaN) = False"
| "ToBoolean (JNumber PosInfinity) = True"
| "ToBoolean (JNumber NegInfinity) = True"
| "ToBoolean (JString s) = (s \<noteq> [])"
| "ToBoolean (JArray vs) = True"
| "ToBoolean (JObject ps) = True"

text \<open>
  The values above are data: each property is a writable data property, and the
  prototype of an object is \<^verbatim>\<open>Object.prototype\<close> (of an array, \<^verbatim>\<open>Array.prototype\<close>, whose
  own prototype is \<^verbatim>\<open>Object.prototype\<close>). The object that the constructor builds for
  the connection options is assigned to key by key, and an assignment to the key
  \<^verbatim>\<open>__proto__\<close> can change its prototype. It is modelled with its prototype, which is
  \<^verbatim>\<open>Object.prototype\<close> or the value that such an assignment has installed (an object,
  an array or \<^verbatim>\<open>null\<close>). \<open>plain_object ps\<close> is what the literal with the properties
  \<open>ps\<close> denotes.
\<close>

datatype prototype = Object_prototype | Installed js_value

record js_object =
  properties :: "(string \<times> js_value) list"
  prototype :: prototype

definition plain_object :: "(string \<times> js_value) list \<Rightarrow> js_object" where
  "plain_object ps = \<lparr>properties = ps, prototype = Object_prototype\<rparr>"

section \<open>The JSON codec\<close>

text \<open>
  \<^verbatim>\<open>JSON.parse\<close> is not code of the repository. Every function of the transport below
  takes the parser as a parameter \<open>parse\<close>, and the general theorems hold for any
  parser. \<open>JSON_parse\<close> is a model of the ECMAScript function, following the JSON
  grammar (ECMA-404): a lexer from bytes to tokens and a pushdown automaton on the
  tokens. It is used where a theorem evaluates the transport on concrete input.
\<close>

definition is_ws :: "char \<Rightarrow> bool" where
  "is_ws c = (c = CHR 0x09 \<or> c = CHR 0x0A \<or> c = CHR 0x0D \<or> c = CHR 0x20)"

definition is_digit :: "char \<Rightarrow> bool" where
  "is_digit c = (48 \<le> (of_char c :: nat) \<and> (of_char c :: nat) \<le> 57)"

definition digits_val :: "string \<Rightarrow> nat" where
  "digits_val ds = foldl (\<lambda>a c. 10 * a + (of_char c - 48)) 0 ds"

definition hex_val :: "char \<Rightarrow> nat option" where
  "hex_val c =
     (let n = (of_char c :: nat) in
      if 48 \<le> n \<and> n \<le> 57 then Some (n - 48)
      else if 65 \<le> n \<and> n \<le> 70 then Some (n - 55)
      else if 97 \<le> n \<and> n \<le> 102 then Some (n - 87)
      else None)"

text \<open>Four hexadecimal digits at the head of the input, as a code unit.\<close>

definition hex4 :: "string \<Rightarrow> nat option" where
  "hex4 cs =
     (case cs of
        a # b # c # d # _ \<Rightarrow>
          (case (hex_val a, hex_val b, hex_val c, hex_val d) of
             (Some x, Some y, Some z, Some w) \<Rightarrow> Some (((x * 16 + y) * 16 + z) * 16 + w)
           | _ \<Rightarrow> None)
      | _ \<Rightarrow> None)"

definition utf8_encode :: "nat \<Rightarrow> string" where
  "utf8_encode n =
     (if n < 0x80 then [char_of n]
      else if n < 0x800 then [char_of (0xC0 + n div 64), char_of (0x80 + n mod 64)]
      else if n < 0x10000 then
        [char_of (0xE0 + n div 4096), char_of (0x80 + (n div 64) mod 64), char_of (0x80 + n mod 64)]
      else
        [char_of (0xF0 + n div 262144), char_of (0x80 + (n div 4096) mod 64),
         char_of (0x80 + (n div 64) mod 64), char_of (0x80 + n mod 64)])"

text \<open>
  The input after \<^verbatim>\<open>\u\<close>: the bytes of the escaped character and how many input
  bytes the escape took. A high surrogate directly followed by an escaped low
  surrogate is one character; any other code unit stands alone.
\<close>

definition unicode_escape :: "string \<Rightarrow> (string \<times> nat) option" where
  "unicode_escape cs =
     (case hex4 cs of
        None \<Rightarrow> None
      | Some hi \<Rightarrow>
          (case (if 0xD800 \<le> hi \<and> hi < 0xDC00 \<and> take 2 (drop 4 cs) = [CHR 0x5C, CHR ''u'']
                 then hex4 (drop 6 cs) else None) of
             Some lo \<Rightarrow>
               if 0xDC00 \<le> lo \<and> lo < 0xE000
               then Some (utf8_encode (0x10000 + (hi - 0xD800) * 0x400 + (lo - 0xDC00)), 10)
               else Some (utf8_encode hi, 4)
           | None \<Rightarrow> Some (utf8_encode hi, 4)))"

definition simple_escape :: "char \<Rightarrow> char option" where
  "simple_escape e =
     (if e = CHR 0x22 then Some (CHR 0x22)
      else if e = CHR 0x5C then Some (CHR 0x5C)
      else if e = CHR ''/'' then Some (CHR ''/'')
      else if e = CHR ''b'' then Some (CHR 0x08)
      else if e = CHR ''f'' then Some (CHR 0x0C)
      else if e = CHR ''n'' then Some (CHR 0x0A)
      else if e = CHR ''r'' then Some (CHR 0x0D)
      else if e = CHR ''t'' then Some (CHR 0x09)
      else None)"

text \<open>A string literal after its opening quote: the content and the input after the closing quote.\<close>

fun lex_string :: "string \<Rightarrow> (string \<times> string) option" where
  "lex_string [] = None"
| "lex_string (c # cs) =
     (if c = CHR 0x22 then Some ([], cs)
      else if c = CHR 0x5C then
        (case cs of
           [] \<Rightarrow> None
         | e # cs' \<Rightarrow>
             if e = CHR ''u'' then
               (case unicode_escape cs' of
                  None \<Rightarrow> None
                | Some (bytes, n) \<Rightarrow>
                    (case lex_string (drop n cs') of
                       None \<Rightarrow> None
                     | Some (s, r) \<Rightarrow> Some (bytes @ s, r)))
             else
               (case simple_escape e of
                  None \<Rightarrow> None
                | Some x \<Rightarrow>
                    (case lex_string cs' of
                       None \<Rightarrow> None
                     | Some (s, r) \<Rightarrow> Some (x # s, r))))
      else if (of_char c :: nat) < 0x20 then None
      else
        (case lex_string cs of
           None \<Rightarrow> None
         | Some (s, r) \<Rightarrow> Some (c # s, r)))"

text \<open>
  The Number value of a decimal literal. A magnitude that IEEE-754 rounding to nearest
  takes to zero or to infinity becomes zero or infinity; a magnitude in range keeps
  its exact value (the model does not round it to 53 bits).
\<close>

definition Number_of :: "rat \<Rightarrow> js_number" where
  "Number_of q =
     (if q = 0 \<or> \<bar>q\<bar> * 2 ^ 1075 \<le> 1 then Finite 0
      else if 2 ^ 1024 - 2 ^ 970 \<le> \<bar>q\<bar> then (if q < 0 then NegInfinity else PosInfinity)
      else Finite q)"

text \<open>
  A number literal at the head of the input:
  \<^verbatim>\<open>-? (0 | [1-9][0-9]*) (. [0-9]+)? ([eE] [+-]? [0-9]+)?\<close>,
  read part by part; each part returns what it read and the input after it.
\<close>

definition lex_sign :: "string \<Rightarrow> bool \<times> string" where
  "lex_sign cs =
     (case cs of [] \<Rightarrow> (False, cs)
      | c # r \<Rightarrow> if c = CHR ''-'' then (True, r) else (False, cs))"

definition lex_int :: "string \<Rightarrow> string \<times> string" where
  "lex_int cs =
     (case cs of [] \<Rightarrow> ([], cs)
      | c # r \<Rightarrow>
          if c = CHR ''0'' then ([c], r)
          else (takeWhile is_digit cs, dropWhile is_digit cs))"

definition lex_frac :: "string \<Rightarrow> string option \<times> string" where
  "lex_frac cs =
     (case cs of [] \<Rightarrow> (None, cs)
      | c # r \<Rightarrow>
          if c = CHR ''.'' then (Some (takeWhile is_digit r), dropWhile is_digit r)
          else (None, cs))"

definition lex_exp :: "string \<Rightarrow> (bool \<times> string) option \<times> string" where
  "lex_exp cs =
     (case cs of [] \<Rightarrow> (None, cs)
      | c # r \<Rightarrow>
          if c = CHR ''e'' \<or> c = CHR ''E'' then
            (let (eneg, r') =
                   (case r of [] \<Rightarrow> (False, r)
                    | s # r2 \<Rightarrow>
                        if s = CHR ''-'' then (True, r2)
                        else if s = CHR ''+'' then (False, r2)
                        else (False, r))
             in (Some (eneg, takeWhile is_digit r'), dropWhile is_digit r'))
          else (None, cs))"

definition number_value :: "bool \<Rightarrow> string \<Rightarrow> string option \<Rightarrow> (bool \<times> string) option \<Rightarrow> rat" where
  "number_value neg ip fp ep =
     (let fd = (case fp of None \<Rightarrow> [] | Some ds \<Rightarrow> ds);
          m = (of_nat (digits_val (ip @ fd)) :: rat) / 10 ^ length fd;
          v = (case ep of
                 None \<Rightarrow> m
               | Some (eneg, es) \<Rightarrow>
                   if eneg then m / 10 ^ digits_val es else m * 10 ^ digits_val es)
      in if neg then - v else v)"

definition lex_number :: "string \<Rightarrow> (js_number \<times> string) option" where
  "lex_number cs =
     (let (neg, cs1) = lex_sign cs;
          (ip, cs2) = lex_int cs1;
          (fp, cs3) = lex_frac cs2;
          (ep, cs4) = lex_exp cs3
      in if ip = [] \<or> fp = Some [] \<or> (case ep of Some (_, es) \<Rightarrow> es = [] | None \<Rightarrow> False)
         then None
         else Some (Number_of (number_value neg ip fp ep), cs4))"

datatype token =
    TLBrace | TRBrace | TLBracket | TRBracket | TColon | TComma
  | TString string
  | TNumber js_number
  | TLiteral js_value

lemma lex_string_shorter: "lex_string cs = Some (s, r) \<Longrightarrow> length r < length cs"
proof (induction cs arbitrary: s r rule: lex_string.induct)
  case 1
  then show ?case by simp
next
  case (2 c cs)
  show ?case
  proof (cases "c = CHR 0x22")
    case True
    with "2.prems" show ?thesis by simp
  next
    case notq: False
    show ?thesis
    proof (cases "c = CHR 0x5C")
      case True
      then obtain e cs' where cs: "cs = e # cs'"
        using "2.prems" notq by (cases cs) auto
      show ?thesis
      proof (cases "e = CHR ''u''")
        case eu: True
        from "2.prems" notq True cs eu obtain bytes n s' where
          ue: "unicode_escape cs' = Some (bytes, n)" and
          rec: "lex_string (drop n cs') = Some (s', r)"
          by (auto split: option.splits)
        from "2.IH"(1)[OF notq True cs eu ue refl rec]
        have "length r < length (drop n cs')" .
        then show ?thesis using cs by simp
      next
        case neu: False
        from "2.prems" notq True cs neu obtain x s' where
          se: "simple_escape e = Some x" and
          rec: "lex_string cs' = Some (s', r)"
          by (auto split: option.splits)
        from "2.IH"(2)[OF notq True cs neu se rec]
        show ?thesis using cs by simp
      qed
    next
      case nbs: False
      from "2.prems" notq nbs have ctl: "\<not> (of_char c :: nat) < 0x20"
        by (auto split: if_splits)
      from "2.prems" notq nbs ctl obtain s' where rec: "lex_string cs = Some (s', r)"
        by (auto split: option.splits)
      from "2.IH"(3)[OF notq nbs ctl rec] show ?thesis by simp
    qed
  qed
qed

lemma lex_sign_shorter: "length (snd (lex_sign cs)) \<le> length cs"
  by (simp add: lex_sign_def split: list.splits)

lemma lex_int_consumes: "lex_int cs = (ip, r) \<Longrightarrow> ip \<noteq> [] \<Longrightarrow> length r < length cs"
proof -
  assume a: "lex_int cs = (ip, r)" and ne: "ip \<noteq> []"
  have "length cs = length (takeWhile is_digit cs @ dropWhile is_digit cs)"
    by (simp only: takeWhile_dropWhile_id)
  also have "\<dots> = length (takeWhile is_digit cs) + length (dropWhile is_digit cs)"
    by (rule length_append)
  finally have "length (takeWhile is_digit cs) + length (dropWhile is_digit cs) = length cs"
    by (rule sym)
  with a ne show ?thesis
    by (cases cs) (auto simp: lex_int_def split: if_splits)
qed

lemma lex_frac_shorter: "length (snd (lex_frac cs)) \<le> length cs"
  by (simp add: lex_frac_def le_SucI length_dropWhile_le split: list.splits)

lemma lex_exp_shorter: "length (snd (lex_exp cs)) \<le> length cs"
  by (auto simp add: lex_exp_def le_SucI length_dropWhile_le split: list.splits
      intro: le_trans[OF length_dropWhile_le])

lemma lex_number_shorter: "lex_number cs = Some (n, r) \<Longrightarrow> length r < length cs"
proof -
  assume a: "lex_number cs = Some (n, r)"
  obtain neg cs1 where s: "lex_sign cs = (neg, cs1)" by (cases "lex_sign cs")
  obtain ip cs2 where i: "lex_int cs1 = (ip, cs2)" by (cases "lex_int cs1")
  obtain fp cs3 where f: "lex_frac cs2 = (fp, cs3)" by (cases "lex_frac cs2")
  obtain ep cs4 where e: "lex_exp cs3 = (ep, cs4)" by (cases "lex_exp cs3")
  from a s i f e have r: "r = cs4" and ip: "ip \<noteq> []"
    by (simp_all add: lex_number_def split: if_splits)
  have "length cs4 \<le> length cs3" using lex_exp_shorter[of cs3] e by simp
  also have "\<dots> \<le> length cs2" using lex_frac_shorter[of cs2] f by simp
  also have "\<dots> < length cs1" using lex_int_consumes[OF i ip] .
  also have "\<dots> \<le> length cs" using lex_sign_shorter[of cs] s by simp
  finally show ?thesis using r by simp
qed

text \<open>The lexer. White space between tokens is skipped.\<close>

definition starts_with :: "string \<Rightarrow> string \<Rightarrow> bool" where
  "starts_with lit cs = (take (length lit) cs = lit)"

function lex :: "string \<Rightarrow> token list option" where
  "lex [] = Some []"
| "lex (c # cs) =
     (if is_ws c then lex cs
      else if c = CHR ''{'' then map_option (Cons TLBrace) (lex cs)
      else if c = CHR ''}'' then map_option (Cons TRBrace) (lex cs)
      else if c = CHR ''['' then map_option (Cons TLBracket) (lex cs)
      else if c = CHR '']'' then map_option (Cons TRBracket) (lex cs)
      else if c = CHR '':'' then map_option (Cons TColon) (lex cs)
      else if c = CHR '','' then map_option (Cons TComma) (lex cs)
      else if c = CHR 0x22 then
        (case lex_string cs of
           None \<Rightarrow> None
         | Some (s, r) \<Rightarrow> map_option (Cons (TString s)) (lex r))
      else if c = CHR ''-'' \<or> is_digit c then
        (case lex_number (c # cs) of
           None \<Rightarrow> None
         | Some (n, r) \<Rightarrow> map_option (Cons (TNumber n)) (lex r))
      else if starts_with ''true'' (c # cs) then
        map_option (Cons (TLiteral (JBoolean True))) (lex (drop 3 cs))
      else if starts_with ''false'' (c # cs) then
        map_option (Cons (TLiteral (JBoolean False))) (lex (drop 4 cs))
      else if starts_with ''null'' (c # cs) then
        map_option (Cons (TLiteral JNull)) (lex (drop 3 cs))
      else None)"
  by pat_completeness auto
termination
proof (relation "measure length")
  show "wf (measure length)" by simp
next
  fix c cs x2 x y
  assume "lex_string cs = Some x2" and "(x, y) = x2"
  then have "lex_string cs = Some (x, y)" by simp
  from lex_string_shorter[OF this] show "(y, c # cs) \<in> measure length" by simp
next
  fix c cs x2 x y
  assume "lex_number (c # cs) = Some x2" and "(x, y) = x2"
  then have "lex_number (c # cs) = Some (x, y)" by simp
  from lex_number_shorter[OF this] show "(y, c # cs) \<in> measure length" by simp
qed simp_all

declare lex.simps [simp del]

text \<open>
  The automaton on tokens. A frame is an array or an object under construction (an
  object with the key whose value is being read); the mode says what may come next.
  A repeated key keeps its first position and takes the last value, as in ECMAScript.
\<close>

datatype frame = InArray "js_value list" | InObject "(string \<times> js_value) list" "string option"

datatype mode =
    ExpectValue bool
  | ExpectKey bool
  | ExpectColon
  | ExpectSeparator
  | Done js_value

text \<open>A value is complete: it is the result, or it goes into the enclosing frame.\<close>

fun after_value :: "js_value \<Rightarrow> frame list \<Rightarrow> (mode \<times> frame list) option" where
  "after_value v [] = Some (Done v, [])"
| "after_value v (InArray vs # st) = Some (ExpectSeparator, InArray (vs @ [v]) # st)"
| "after_value v (InObject ps (Some k) # st) =
     Some (ExpectSeparator, InObject (AList.update k v ps) None # st)"
| "after_value v (InObject ps None # st) = None"

text \<open>
  One token. \<open>ExpectValue True\<close> and \<open>ExpectKey True\<close> are the modes right after an
  opening bracket or brace, where the container may close at once.
\<close>

definition step_token :: "mode \<Rightarrow> frame list \<Rightarrow> token \<Rightarrow> (mode \<times> frame list) option" where
  "step_token m st t =
     (case m of
        ExpectValue c \<Rightarrow>
          (case t of
             TLBracket \<Rightarrow> Some (ExpectValue True, InArray [] # st)
           | TLBrace \<Rightarrow> Some (ExpectKey True, InObject [] None # st)
           | TString s \<Rightarrow> after_value (JString s) st
           | TNumber n \<Rightarrow> after_value (JNumber n) st
           | TLiteral v \<Rightarrow> after_value v st
           | TRBracket \<Rightarrow>
               (case st of
                  InArray vs # st' \<Rightarrow> if c then after_value (JArray vs) st' else None
                | _ \<Rightarrow> None)
           | _ \<Rightarrow> None)
      | ExpectKey c \<Rightarrow>
          (case st of
             InObject ps _ # st' \<Rightarrow>
               (case t of
                  TString k \<Rightarrow> Some (ExpectColon, InObject ps (Some k) # st')
                | TRBrace \<Rightarrow> if c then after_value (JObject ps) st' else None
                | _ \<Rightarrow> None)
           | _ \<Rightarrow> None)
      | ExpectColon \<Rightarrow>
          (case t of TColon \<Rightarrow> Some (ExpectValue False, st) | _ \<Rightarrow> None)
      | ExpectSeparator \<Rightarrow>
          (case st of
             InArray vs # st' \<Rightarrow>
               (case t of
                  TComma \<Rightarrow> Some (ExpectValue False, st)
                | TRBracket \<Rightarrow> after_value (JArray vs) st'
                | _ \<Rightarrow> None)
           | InObject ps _ # st' \<Rightarrow>
               (case t of
                  TComma \<Rightarrow> Some (ExpectKey False, st)
                | TRBrace \<Rightarrow> after_value (JObject ps) st'
                | _ \<Rightarrow> None)
           | [] \<Rightarrow> None)
      | Done v \<Rightarrow> None)"

fun run_tokens :: "mode \<Rightarrow> frame list \<Rightarrow> token list \<Rightarrow> js_value option" where
  "run_tokens m st [] = (case m of Done v \<Rightarrow> Some v | _ \<Rightarrow> None)"
| "run_tokens m st (t # ts) =
     (case step_token m st t of
        None \<Rightarrow> None
      | Some (m', st') \<Rightarrow> run_tokens m' st' ts)"

text \<open>\<^verbatim>\<open>JSON.parse(text)\<close>: the value, or the SyntaxError it throws.\<close>

definition JSON_parse :: "string \<Rightarrow> js_error + js_value" where
  "JSON_parse text =
     (case lex text of
        None \<Rightarrow> Inl (JsError SyntaxError ''Unexpected token in JSON'')
      | Some ts \<Rightarrow>
          (case run_tokens (ExpectValue False) [] ts of
             None \<Rightarrow> Inl (JsError SyntaxError ''Unexpected token in JSON'')
           | Some v \<Rightarrow> Inr v))"

section \<open>The check-types predicates\<close>

text \<open>
  \<^verbatim>\<open>check-types\<close> is a dependency of the repository. The predicates the transport
  calls are modelled from the library's documentation:
  \<^item> \<^verbatim>\<open>string(thing)\<close>: thing is a string;
  \<^item> \<^verbatim>\<open>nonEmptyString(thing)\<close>: thing is a non-empty string;
  \<^item> \<^verbatim>\<open>number(thing)\<close>: thing is a number, other than NaN and the infinities;
  \<^item> \<^verbatim>\<open>greaterOrEqual(thing, value)\<close>, \<^verbatim>\<open>lessOrEqual(thing, value)\<close>: thing is a
    number at least, at most value;
  \<^item> \<^verbatim>\<open>inRange(thing, a, b)\<close>: thing is a number in the range a .. b, the bounds in
    either order;
  \<^item> \<^verbatim>\<open>object(thing)\<close>: thing is a plain object (not an array, not null);
  \<^item> the modifier \<^verbatim>\<open>maybe\<close>: true if thing is null or undefined, otherwise the predicate;
  \<^item> the modifier \<^verbatim>\<open>assert\<close>: throws a TypeError with the given message if the
    predicate is false.
\<close>

definition check_string :: "js_value \<Rightarrow> bool" where
  "check_string data = (case data of JString _ \<Rightarrow> True | _ \<Rightarrow> False)"

definition check_nonEmptyString :: "js_value \<Rightarrow> bool" where
  "check_nonEmptyString data = (check_string data \<and> data \<noteq> JString [])"

definition check_number :: "js_value \<Rightarrow> bool" where
  "check_number data = (case data of JNumber (Finite _) \<Rightarrow> True | _ \<Rightarrow> False)"

definition check_greaterOrEqual :: "js_value \<Rightarrow> rat \<Rightarrow> bool" where
  "check_greaterOrEqual lhs rhs =
     (check_number lhs \<and> (case lhs of JNumber (Finite q) \<Rightarrow> rhs \<le> q | _ \<Rightarrow> False))"

definition check_lessOrEqual :: "js_value \<Rightarrow> rat \<Rightarrow> bool" where
  "check_lessOrEqual lhs rhs =
     (check_number lhs \<and> (case lhs of JNumber (Finite q) \<Rightarrow> q \<le> rhs | _ \<Rightarrow> False))"

definition check_inRange :: "js_value \<Rightarrow> rat \<Rightarrow> rat \<Rightarrow> bool" where
  "check_inRange data x y =
     (if x < y then check_greaterOrEqual data x \<and> check_lessOrEqual data y
      else check_lessOrEqual data x \<and> check_greaterOrEqual data y)"

definition check_object :: "js_value \<Rightarrow> bool" where
  "check_object data = (case data of JObject _ \<Rightarrow> True | _ \<Rightarrow> False)"

definition check_maybe :: "(js_value \<Rightarrow> bool) \<Rightarrow> js_value \<Rightarrow> bool" where
  "check_maybe predicate data =
     (if data = JUndefined \<or> data = JNull then True else predicate data)"

definition check_assert :: "bool \<Rightarrow> string \<Rightarrow> js_error option" where
  "check_assert holds message = (if holds then None else Some (JsError TypeError message))"

section \<open>The transport and its environment\<close>

text \<open>
  The private bag \<^verbatim>\<open>_data.get(this)\<close>. \<open>socket\<close> is the handle (\<open>None\<close> for
  \<^verbatim>\<open>null\<close>), \<open>error\<close> the pending error, and \<open>buffer\<close> the property that
  \<^verbatim>\<open>onSocketData\<close> adds on its first call (\<open>None\<close> while it is absent).
\<close>

record transport_data =
  options :: js_object
  socket :: "nat option"
  connected :: bool
  error :: "js_error option"
  buffer :: "string option"

text \<open>
  A promise is pending, resolved or rejected; with each promise the model keeps the
  method that returned it.
\<close>

datatype outcome = Pending | Resolved | Rejected js_error

datatype operation = OpConnect | OpDisconnect | OpSend

datatype event_name = EvConnected | EvDisconnected | EvData | EvError

text \<open>What \<^verbatim>\<open>this.emit\<close> is called with: the event and its argument.\<close>

datatype notification =
    Connected
  | Disconnected "js_error option"
  | Data js_value
  | ErrorEvent js_error

fun event_of :: "notification \<Rightarrow> event_name" where
  "event_of Connected = EvConnected"
| "event_of (Disconnected err) = EvDisconnected"
| "event_of (Data message) = EvData"
| "event_of (ErrorEvent err) = EvError"

text \<open>
  The listeners the transport registers on itself with \<^verbatim>\<open>this.once\<close>: the two closures
  of \<^verbatim>\<open>connect\<close> (with the promise they settle) and the closure of \<^verbatim>\<open>disconnect\<close>
  (with its promise and its \<^verbatim>\<open>destroyTimeout\<close>).
\<close>

datatype listener =
    ConnectOnConnected nat
  | ConnectOnDisconnected nat
  | DisconnectOnDisconnected nat nat

text \<open>The calls the transport makes on the TLS module and on a socket, the socket first.\<close>

datatype socket_call =
    TlsConnect nat js_object
  | SetEncoding nat string
  | SetKeepAlive nat bool
  | SetNoDelay nat bool
  | SocketEnd nat
  | SocketDestroy nat
  | SocketWrite nat string string nat

text \<open>
  The transport with the part of the Node.js runtime it acts on:
  \<^item> \<open>listeners\<close>: the transport's own \<^verbatim>\<open>once\<close> listeners, in registration order;
  \<^item> \<open>immediates\<close>: the queue of \<^verbatim>\<open>setImmediate\<close>, each entry an \<^verbatim>\<open>emit\<close> to run;
  \<^item> \<open>timers\<close>: the active timeouts, as (timer, delay in ms, socket to destroy);
  \<^item> \<open>calls\<close>: the calls made on the underlying primitive so far;
  \<^item> \<open>promises\<close>: the promises returned so far, a promise being its index;
  \<^item> \<open>write_callbacks\<close>: the writes whose callback has not run yet, by the promise
    the callback resolves;
  \<^item> \<open>emitted\<close>: the notifications emitted so far, as a consumer's listeners see them.
\<close>

record world =
  tdata :: transport_data
  listeners :: "(event_name \<times> listener) list"
  immediates :: "notification list"
  timers :: "(nat \<times> nat \<times> nat) list"
  next_timer :: nat
  calls :: "socket_call list"
  next_socket :: nat
  promises :: "(operation \<times> outcome) list"
  write_callbacks :: "nat list"
  emitted :: "notification list"

subsection \<open>Runtime primitives\<close>

definition new_promise :: "operation \<Rightarrow> outcome \<Rightarrow> world \<Rightarrow> world" where
  "new_promise op out w = w\<lparr>promises := promises w @ [(op, out)]\<rparr>"

text \<open>Settling a promise has an effect only while it is pending.\<close>

definition settle :: "nat \<Rightarrow> outcome \<Rightarrow> (operation \<times> outcome) list \<Rightarrow> (operation \<times> outcome) list" where
  "settle p out ps =
     (if p < length ps \<and> snd (ps ! p) = Pending then ps[p := (fst (ps ! p), out)] else ps)"

definition resolve :: "nat \<Rightarrow> world \<Rightarrow> world" where
  "resolve p w = w\<lparr>promises := settle p Resolved (promises w)\<rparr>"

definition reject :: "nat \<Rightarrow> js_error \<Rightarrow> world \<Rightarrow> world" where
  "reject p err w = w\<lparr>promises := settle p (Rejected err) (promises w)\<rparr>"

definition once :: "event_name \<Rightarrow> listener \<Rightarrow> world \<Rightarrow> world" where
  "once ev l w = w\<lparr>listeners := listeners w @ [(ev, l)]\<rparr>"

definition removeListener :: "event_name \<Rightarrow> listener \<Rightarrow> world \<Rightarrow> world" where
  "removeListener ev l w = w\<lparr>listeners := remove1 (ev, l) (listeners w)\<rparr>"

definition setImmediate :: "notification \<Rightarrow> world \<Rightarrow> world" where
  "setImmediate n w = w\<lparr>immediates := immediates w @ [n]\<rparr>"

definition setTimeout :: "nat \<Rightarrow> nat \<Rightarrow> world \<Rightarrow> world" where
  "setTimeout s delay w =
     w\<lparr>timers := timers w @ [(next_timer w, delay, s)], next_timer := Suc (next_timer w)\<rparr>"

definition clearTimeout :: "nat \<Rightarrow> world \<Rightarrow> world" where
  "clearTimeout t w = w\<lparr>timers := filter (\<lambda>(t', _). t' \<noteq> t) (timers w)\<rparr>"

definition socket_call :: "socket_call \<Rightarrow> world \<Rightarrow> world" where
  "socket_call c w = w\<lparr>calls := calls w @ [c]\<rparr>"

subsection \<open>The constructor\<close>

text \<open>
  \<^verbatim>\<open>Object.assign\<close> assigns with the internal method Set of ECMAScript. On the object under
  construction, \<open>Set_property k v\<close> is that method:
  \<^item> a key that is an own property gets the new value and keeps its place;
  \<^item> a key that is not an own property is looked up along the prototype chain. What
    the chain can hold is a writable data property, and then the target gets a new own
    property, as it does when the chain does not hold the key; or the accessor
    \<^verbatim>\<open>__proto__\<close> of \<^verbatim>\<open>Object.prototype\<close>, and then its setter runs on the target and
    no own property is created.

  \<open>inherits_proto_accessor\<close> says that the lookup of \<^verbatim>\<open>__proto__\<close> from a prototype
  ends at that accessor: it does unless the chain is empty (the prototype is
  \<^verbatim>\<open>null\<close>) or the installed prototype is an object with an own data property
  \<^verbatim>\<open>__proto__\<close>. \<open>proto_setter\<close> is the setter: a value that is an object or
  \<^verbatim>\<open>null\<close> becomes the prototype of the target, any other value is ignored.
\<close>

definition inherits_proto_accessor :: "prototype \<Rightarrow> bool" where
  "inherits_proto_accessor proto =
     (case proto of
        Object_prototype \<Rightarrow> True
      | Installed (JObject ps) \<Rightarrow> ''__proto__'' \<notin> fst ` set ps
      | Installed (JArray vs) \<Rightarrow> True
      | Installed _ \<Rightarrow> False)"

fun object_or_null :: "js_value \<Rightarrow> bool" where
  "object_or_null (JObject ps) = True"
| "object_or_null (JArray vs) = True"
| "object_or_null JNull = True"
| "object_or_null _ = False"

definition proto_setter :: "js_value \<Rightarrow> js_object \<Rightarrow> js_object" where
  "proto_setter v obj = (if object_or_null v then obj\<lparr>prototype := Installed v\<rparr> else obj)"

definition Set_property :: "string \<Rightarrow> js_value \<Rightarrow> js_object \<Rightarrow> js_object" where
  "Set_property k v obj =
     (if k = ''__proto__'' \<and> k \<notin> fst ` set (properties obj)
         \<and> inherits_proto_accessor (prototype obj)
      then proto_setter v obj
      else obj\<lparr>properties := AList.update k v (properties obj)\<rparr>)"

text \<open>
  \<^verbatim>\<open>Object.assign(target, ...sources)\<close>: the own properties of each source in turn
  are set on the target. A source that is \<^verbatim>\<open>null\<close> or \<^verbatim>\<open>undefined\<close> is skipped. The
  constructor passes nothing else: \<^verbatim>\<open>extra\<close> has been checked before.
\<close>

definition Object_assign :: "js_object \<Rightarrow> js_value list \<Rightarrow> js_object" where
  "Object_assign target sources =
     foldl (\<lambda>t source.
              case source of
                JObject ps \<Rightarrow> foldl (\<lambda>t' (k, v). Set_property k v t') t ps
              | _ \<Rightarrow> t)
       target sources"

definition initial :: "js_object \<Rightarrow> world" where
  "initial opts =
     \<lparr>tdata = \<lparr>options = opts, socket = None, connected = False, error = None, buffer = None\<rparr>,
      listeners = [], immediates = [], timers = [], next_timer = 0, calls = [],
      next_socket = 0, promises = [], write_callbacks = [], emitted = []\<rparr>"

text \<open>
  \<^verbatim>\<open>new TLSTransport({ host, port, extra })\<close>: the error thrown, or the new transport.
  A property missing from the argument is \<open>JUndefined\<close>.
\<close>

definition TLSTransport :: "js_value \<Rightarrow> js_value \<Rightarrow> js_value \<Rightarrow> js_error + world" where
  "TLSTransport host port extra =
     (case check_assert (check_nonEmptyString host) ''missing/invalid \"host\" option'' of
        Some e \<Rightarrow> Inl e
      | None \<Rightarrow>
     (case check_assert (check_inRange port 1 65535) ''missing/invalid \"port\" option'' of
        Some e \<Rightarrow> Inl e
      | None \<Rightarrow>
     (case check_assert (check_maybe check_object extra) ''invalid \"extra\" option'' of
        Some e \<Rightarrow> Inl e
      | None \<Rightarrow>
          Inr (initial
                 (Object_assign (plain_object [(''rejectUnauthorized'', JBoolean True)])
                    [extra,
                     JObject [(''host'', host), (''port'', port),
                              (''path'', JUndefined), (''socket'', JUndefined)]])))))"

definition needsConnection :: "world \<Rightarrow> bool" where
  "needsConnection w = True"

definition isConnected :: "world \<Rightarrow> bool" where
  "isConnected w = connected (tdata w)"

subsection \<open>connect, disconnect, send\<close>

text \<open>
  \<^verbatim>\<open>createSocket\<close>: \<^verbatim>\<open>tls.connect(options)\<close> returns a fresh socket, which is then
  configured. The five \<^verbatim>\<open>socket.on\<close> registrations are the dispatch of \<open>fire\<close> below.
  \<^verbatim>\<open>tls.connect\<close> is taken to return: the model leaves out the options on which
  Node.js throws from it.
\<close>

definition createSocket :: "js_object \<Rightarrow> world \<Rightarrow> nat \<times> world" where
  "createSocket opts w =
     (let s = next_socket w;
          w1 = socket_call (TlsConnect s opts) (w\<lparr>next_socket := Suc s\<rparr>);
          w2 = socket_call (SetEncoding s ''utf8'') w1;
          w3 = socket_call (SetKeepAlive s True) w2;
          w4 = socket_call (SetNoDelay s True) w3
      in (s, w4))"

text \<open>
  Each method returns a promise and runs its executor at once. The new promise is the
  next index, \<open>length (promises w)\<close>.
\<close>

definition connect :: "world \<Rightarrow> world" where
  "connect w =
     (let data = tdata w; p = length (promises w) in
      case socket data of
        Some s \<Rightarrow>
          if connected data then new_promise OpConnect Resolved w
          else new_promise OpConnect (Rejected (JsError Error ''Connection already in progress'')) w
      | None \<Rightarrow>
          (let w1 = new_promise OpConnect Pending w;
               w2 = once EvConnected (ConnectOnConnected p) w1;
               w3 = once EvDisconnected (ConnectOnDisconnected p) w2;
               (s, w4) = createSocket (options data) w3
           in w4\<lparr>tdata := data\<lparr>connected := False, socket := Some s\<rparr>\<rparr>))"

definition disconnect :: "world \<Rightarrow> world" where
  "disconnect w =
     (let p = length (promises w) in
      case socket (tdata w) of
        None \<Rightarrow> new_promise OpDisconnect Resolved w
      | Some s \<Rightarrow>
          (let w1 = new_promise OpDisconnect Pending w;
               destroyTimeout = next_timer w1;
               w2 = setTimeout s 5000 w1;
               w3 = once EvDisconnected (DisconnectOnDisconnected p destroyTimeout) w2
           in socket_call (SocketEnd s) w3))"

text \<open>
  With \<open>connected\<close> true and no socket, \<^verbatim>\<open>socket.write\<close> is a property read on
  \<^verbatim>\<open>null\<close>: the executor throws a TypeError and the promise is rejected with it.
  Otherwise \<^verbatim>\<open>send\<close> makes one call of \<^verbatim>\<open>socket.write\<close>, logged with the promise
  that its callback resolves.
\<close>

definition send :: "js_value \<Rightarrow> world \<Rightarrow> world" where
  "send d w =
     (let p = length (promises w) in
      if \<not> check_nonEmptyString d then
        new_promise OpSend (Rejected (JsError TypeError ''missing/invalid \"data\" parameter'')) w
      else if \<not> connected (tdata w) then
        new_promise OpSend (Rejected (JsError DisconnectedError ''Transport not connected'')) w
      else
        (case socket (tdata w) of
           None \<Rightarrow>
             new_promise OpSend
               (Rejected (JsError TypeError ''Cannot read property 'write' of null'')) w
         | Some s \<Rightarrow>
             (let payload = (case d of JString text \<Rightarrow> text | _ \<Rightarrow> []);
                  w1 = new_promise OpSend Pending w;
                  w2 = socket_call (SocketWrite s (payload @ [CHR 0x0A]) ''utf8'' p) w1
              in w2\<lparr>write_callbacks := write_callbacks w2 @ [p]\<rparr>)))"

subsection \<open>The socket handlers\<close>

definition onSocketSecureConnect :: "world \<Rightarrow> world" where
  "onSocketSecureConnect w =
     setImmediate Connected (w\<lparr>tdata := (tdata w)\<lparr>error := None, connected := True\<rparr>\<rparr>)"

definition onSocketTimeout :: "world \<Rightarrow> world" where
  "onSocketTimeout w =
     disconnect (w\<lparr>tdata := (tdata w)\<lparr>error := Some (JsError Error ''Connection timed out'')\<rparr>\<rparr>)"

definition onSocketError :: "js_error \<Rightarrow> world \<Rightarrow> world" where
  "onSocketError err w = w\<lparr>tdata := (tdata w)\<lparr>error := Some err\<rparr>\<rparr>"

definition onSocketClose :: "world \<Rightarrow> world" where
  "onSocketClose w =
     (let err = error (tdata w) in
      setImmediate (Disconnected err)
        (w\<lparr>tdata := (tdata w)\<lparr>error := None, socket := None, connected := False\<rparr>\<rparr>))"

text \<open>
  \<^verbatim>\<open>String.prototype.indexOf\<close> for a single character (\<open>-1\<close> when absent) and
  \<^verbatim>\<open>String.prototype.substr\<close> with and without a length. A negative start counts
  from the end of the string.
\<close>

fun indexOf :: "string \<Rightarrow> char \<Rightarrow> int" where
  "indexOf [] c = - 1"
| "indexOf (x # xs) c =
     (if x = c then 0 else (let i = indexOf xs c in if i < 0 then - 1 else i + 1))"

definition substr_start :: "string \<Rightarrow> int \<Rightarrow> nat" where
  "substr_start s start = nat (if start < 0 then max (int (length s) + start) 0 else start)"

definition substr :: "string \<Rightarrow> int \<Rightarrow> int \<Rightarrow> string" where
  "substr s start len = take (nat len) (drop (substr_start s start) s)"

definition substr_from :: "string \<Rightarrow> int \<Rightarrow> string" where
  "substr_from s start = drop (substr_start s start) s"

text \<open>
  One pass of the body of the \<^verbatim>\<open>while\<close> loop of \<^verbatim>\<open>onSocketData\<close> on the candidate in
  front of the delimiter: \<open>message\<close> is declared afresh (\<^verbatim>\<open>undefined\<close>), the
  \<^verbatim>\<open>try\<close> assigns it or the \<^verbatim>\<open>catch\<close> schedules the error, and \<^verbatim>\<open>if (message)\<close>
  schedules the data. \<open>q\<close> is the queue of \<^verbatim>\<open>setImmediate\<close>.
\<close>

definition loop_body :: "(string \<Rightarrow> js_error + js_value) \<Rightarrow> string \<Rightarrow> notification list \<Rightarrow> notification list" where
  "loop_body parse candidate q =
     (let (message, q1) =
            (case parse candidate of
               Inr v \<Rightarrow> (v, q)
             | Inl err \<Rightarrow> (JUndefined, q @ [ErrorEvent err]))
      in if ToBoolean message then q1 @ [Data message] else q1)"

lemma indexOf_nonneg_iff: "0 \<le> indexOf s c \<longleftrightarrow> c \<in> set s"
  by (induction s) (auto simp: Let_def)

lemma indexOf_less_length: "0 \<le> indexOf s c \<Longrightarrow> nat (indexOf s c) < length s"
  by (induction s) (auto simp: Let_def split: if_splits)

text \<open>The \<^verbatim>\<open>while (delimiter >= 0)\<close> loop, the delimiter looked up at the head of each pass.\<close>

function while_delimiter :: "(string \<Rightarrow> js_error + js_value) \<Rightarrow> string \<Rightarrow> notification list \<Rightarrow> string \<times> notification list" where
  "while_delimiter parse buf q =
     (let delimiter = indexOf buf (CHR 0x0A) in
      if 0 \<le> delimiter then
        while_delimiter parse (substr_from buf (delimiter + 1))
          (loop_body parse (substr buf 0 delimiter) q)
      else (buf, q))"
  by pat_completeness auto
termination
proof (relation "measure (\<lambda>(parse, buf, q). length buf)")
  show "wf (measure (\<lambda>(parse, buf, q). length buf))" by simp
next
  fix parse :: "string \<Rightarrow> js_error + js_value" and buf :: string
    and q :: "notification list" and x :: int
  assume x: "x = indexOf buf (CHR 0x0A)" and nonneg: "0 \<le> x"
  from indexOf_less_length[of buf "CHR 0x0A"] x nonneg have "nat x < length buf" by simp
  then have "length (substr_from buf (x + 1)) < length buf"
    using nonneg by (simp add: substr_from_def substr_start_def)
  then show "((parse, substr_from buf (x + 1), loop_body parse (substr buf 0 x) q), parse, buf, q)
      \<in> measure (\<lambda>(parse, buf, q). length buf)"
    by simp
qed

declare while_delimiter.simps [simp del]

definition onSocketData :: "(string \<Rightarrow> js_error + js_value) \<Rightarrow> string \<Rightarrow> world \<Rightarrow> world" where
  "onSocketData parse chunk w =
     (let data = tdata w;
          buffer0 = (case buffer data of None \<Rightarrow> [] | Some b \<Rightarrow> b);
          (buffer', q) = while_delimiter parse (buffer0 @ chunk) (immediates w)
      in w\<lparr>tdata := data\<lparr>buffer := Some buffer'\<rparr>, immediates := q\<rparr>)"

subsection \<open>Emitting\<close>

text \<open>The bodies of the three closures.\<close>

fun invoke :: "listener \<Rightarrow> notification \<Rightarrow> world \<Rightarrow> world" where
  "invoke (ConnectOnConnected p) n w =
     resolve p (removeListener EvDisconnected (ConnectOnDisconnected p) w)"
| "invoke (ConnectOnDisconnected p) n w =
     (let err = (case n of Disconnected (Some e) \<Rightarrow> e | _ \<Rightarrow> JsError Error ''Connection failed'')
      in reject p err (removeListener EvConnected (ConnectOnConnected p) w))"
| "invoke (DisconnectOnDisconnected p destroyTimeout) n w =
     resolve p (clearTimeout destroyTimeout w)"

text \<open>
  \<^verbatim>\<open>this.emit\<close>: the listeners registered for the event when the call starts are called in
  registration order, each \<^verbatim>\<open>once\<close> listener being removed before it is called. The
  listeners of the consumer are not part of the model: \<open>emitted\<close> records what they
  are called with. (Node.js throws from \<^verbatim>\<open>emit('error', ...)\<close> when nothing listens for
  \<^verbatim>\<open>error\<close>; the consumer is taken to listen.)
\<close>

definition emit :: "notification \<Rightarrow> world \<Rightarrow> world" where
  "emit n w =
     foldl (\<lambda>w' l. invoke l n (removeListener (event_of n) l w'))
       (w\<lparr>emitted := emitted w @ [n]\<rparr>)
       (map snd (filter (\<lambda>(ev, l). ev = event_of n) (listeners w)))"

subsection \<open>Steps of the event loop\<close>

text \<open>
  What can happen to a transport: a call of one of its methods, an event of its socket,
  the run of the callback of a write, the expiry of a timeout, and the run of the
  oldest \<^verbatim>\<open>setImmediate\<close> callback.

  Node.js calls the callback of \<^verbatim>\<open>socket.write\<close> once the data has been flushed, with
  no argument, or once the write has failed, with the error (a write after
  \<^verbatim>\<open>end()\<close>, a connection that is reset): \<open>WriteCallback p err\<close> is the call of
  the callback of promise \<open>p\<close> with \<open>err\<close>. The callback that \<^verbatim>\<open>send\<close> passes
  is \<^verbatim>\<open>() => { resolve(); }\<close>: it takes no parameter, and \<open>fire\<close> does not look at
  \<open>err\<close>.
\<close>

datatype event =
    CallConnect
  | CallDisconnect
  | CallSend js_value
  | SecureConnect
  | Timeout
  | SocketError js_error
  | Close
  | SocketData string
  | WriteCallback nat "js_error option"
  | TimerExpires nat
  | RunImmediate

fun fire :: "(string \<Rightarrow> js_error + js_value) \<Rightarrow> event \<Rightarrow> world \<Rightarrow> world" where
  "fire parse CallConnect w = connect w"
| "fire parse CallDisconnect w = disconnect w"
| "fire parse (CallSend d) w = send d w"
| "fire parse SecureConnect w = onSocketSecureConnect w"
| "fire parse Timeout w = onSocketTimeout w"
| "fire parse (SocketError err) w = onSocketError err w"
| "fire parse Close w = onSocketClose w"
| "fire parse (SocketData chunk) w = onSocketData parse chunk w"
| "fire parse (WriteCallback p err) w =
     (if p \<in> set (write_callbacks w)
      then resolve p (w\<lparr>write_callbacks := remove1 p (write_callbacks w)\<rparr>)
      else w)"
| "fire parse (TimerExpires t) w =
     (case filter (\<lambda>(t', _). t' = t) (timers w) of
        [] \<Rightarrow> w
      | (_, _, s) # _ \<Rightarrow> socket_call (SocketDestroy s) (clearTimeout t w))"
| "fire parse RunImmediate w =
     (case immediates w of
        [] \<Rightarrow> w
      | n # rest \<Rightarrow> emit n (w\<lparr>immediates := rest\<rparr>))"

text \<open>
  The assumption on the underlying primitive: a socket raises its events between its
  creation and its \<^verbatim>\<open>close\<close> event, which is its last. As \<^verbatim>\<open>connect\<close> creates a
  socket only when the handle is \<^verbatim>\<open>null\<close>, socket events occur only while a handle is
  installed.
\<close>

fun enabled :: "event \<Rightarrow> world \<Rightarrow> bool" where
  "enabled SecureConnect w = (socket (tdata w) \<noteq> None)"
| "enabled Timeout w = (socket (tdata w) \<noteq> None)"
| "enabled (SocketError err) w = (socket (tdata w) \<noteq> None)"
| "enabled Close w = (socket (tdata w) \<noteq> None)"
| "enabled (SocketData chunk) w = (socket (tdata w) \<noteq> None)"
| "enabled (WriteCallback p err) w = (p \<in> set (write_callbacks w))"
| "enabled (TimerExpires t) w = (t \<in> fst ` set (timers w))"
| "enabled RunImmediate w = (immediates w \<noteq> [])"
| "enabled _ w = True"

text \<open>The states a transport built with options \<open>opts\<close> can be in.\<close>

inductive reachable :: "(string \<Rightarrow> js_error + js_value) \<Rightarrow> world \<Rightarrow> bool"
  for parse :: "string \<Rightarrow> js_error + js_value" where
  reachable_initial: "reachable parse (initial opts)"
| reachable_fire: "reachable parse w \<Longrightarrow> enabled e w \<Longrightarrow> reachable parse (fire parse e w)"

section \<open>Example states\<close>

text \<open>The transport of \<^verbatim>\<open>examples/simple.js\<close>: host \<^verbatim>\<open>example.com\<close>, port 1234, no extra options.\<close>

definition example_transport :: world where
  "example_transport =
     initial (plain_object
       [(''rejectUnauthorized'', JBoolean True), (''host'', JString ''example.com''),
        (''port'', JNumber (Finite 1234)), (''path'', JUndefined), (''socket'', JUndefined)])"

text \<open>
  The example transport after \<^verbatim>\<open>connect()\<close>, and after the \<^verbatim>\<open>secureConnect\<close> event
  that follows.
\<close>

definition connecting_example :: world where
  "connecting_example = connect example_transport"

definition connected_example :: world where
  "connected_example = onSocketSecureConnect connecting_example"

text \<open>The connected example transport once its \<^verbatim>\<open>connected\<close> notification has been emitted.\<close>

definition emitted_example :: world where
  "emitted_example = fire JSON_parse RunImmediate connected_example"

text \<open>
  The example transport once the \<^verbatim>\<open>connected\<close> notification has been emitted and
  \<^verbatim>\<open>disconnect()\<close> has been called, and after the socket's \<^verbatim>\<open>close\<close> event.
\<close>

definition disconnecting_example :: world where
  "disconnecting_example = disconnect (fire JSON_parse RunImmediate connected_example)"

definition closed_example :: world where
  "closed_example = onSocketClose disconnecting_example"

text \<open>
  The connecting example transport after a socket error, and the connected one after
  the chunk \<^verbatim>\<open>{"a":\<close>, an unterminated line.
\<close>

definition errored_example :: world where
  "errored_example = onSocketError (JsError Error ''read ECONNRESET'') connecting_example"

definition partial_example :: world where
  "partial_example = onSocketData JSON_parse ''{\"a\":'' emitted_example"

section \<open>Framing of the inbound stream\<close>

text \<open>
  The lines of a text, as the specification speaks of them: \<open>complete_lines s\<close> are the
  pieces of \<open>s\<close> in front of each line feed, in order, and \<open>remainder s\<close> is what
  follows the last line feed. \<open>split_lines cur s\<close> reads \<open>s\<close> with \<open>cur\<close> the
  line under way.
\<close>

fun split_lines :: "string \<Rightarrow> string \<Rightarrow> string list \<times> string" where
  "split_lines cur [] = ([], cur)"
| "split_lines cur (c # cs) =
     (if c = CHR 0x0A then (cur # fst (split_lines [] cs), snd (split_lines [] cs))
      else split_lines (cur @ [c]) cs)"

definition complete_lines :: "string \<Rightarrow> string list" where
  "complete_lines s = fst (split_lines [] s)"

definition remainder :: "string \<Rightarrow> string" where
  "remainder s = snd (split_lines [] s)"

text \<open>
  \<open>notification_for parse line\<close> is what a complete line gives rise to: the error
  notification if the parser throws, the data notification with the parsed value if the
  value is true in a condition, nothing otherwise; \<open>dropped\<close> says that a line is of
  the last kind. \<open>inboundBuffer\<close> is the buffered text (empty while the property is
  absent), \<open>receive\<close> handles a list of chunks one data event after the other, and
  \<open>flush\<close> runs every callback that \<^verbatim>\<open>setImmediate\<close> has queued.
\<close>

definition notification_for :: "(string \<Rightarrow> js_error + js_value) \<Rightarrow> string \<Rightarrow> notification list" where
  "notification_for parse line =
     (case parse line of
        Inl err \<Rightarrow> [ErrorEvent err]
      | Inr v \<Rightarrow> if ToBoolean v then [Data v] else [])"

definition inboundBuffer :: "world \<Rightarrow> string" where
  "inboundBuffer w = (case buffer (tdata w) of None \<Rightarrow> [] | Some b \<Rightarrow> b)"

definition receive :: "(string \<Rightarrow> js_error + js_value) \<Rightarrow> string list \<Rightarrow> world \<Rightarrow> world" where
  "receive parse chunks w = foldl (\<lambda>w' chunk. onSocketData parse chunk w') w chunks"

definition dropped :: "(string \<Rightarrow> js_error + js_value) \<Rightarrow> string \<Rightarrow> bool" where
  "dropped parse line = (case parse line of Inl err \<Rightarrow> False | Inr v \<Rightarrow> \<not> ToBoolean v)"

definition flush :: "(string \<Rightarrow> js_error + js_value) \<Rightarrow> world \<Rightarrow> world" where
  "flush parse w = (fire parse RunImmediate ^^ length (immediates w)) w"

section \<open>Invariants of the reachable states\<close>

text \<open>
  \<open>listener_ok\<close>: a closure is registered for the event it was written for, and the
  promise it settles was returned by the method that created the closure.
  \<open>promise_inv\<close>: every registered listener is of that kind, a write callback
  that has not run belongs to a promise of \<^verbatim>\<open>send\<close>, no promise of \<^verbatim>\<open>disconnect\<close>
  is rejected, a pending promise of \<^verbatim>\<open>disconnect\<close> still has its listener, and the
  write callback of a pending promise of \<^verbatim>\<open>send\<close> has not run.
  \<open>data_inv\<close>: \<open>connected\<close> implies a handle, no handle implies no pending error,
  and the buffer holds no line feed. \<open>target\<close> is the promise a listener settles.
\<close>

definition listener_ok :: "operation list \<Rightarrow> event_name \<times> listener \<Rightarrow> bool" where
  "listener_ok ops x =
     (case x of
        (ev, ConnectOnConnected p) \<Rightarrow> ev = EvConnected \<and> p < length ops \<and> ops ! p = OpConnect
      | (ev, ConnectOnDisconnected p) \<Rightarrow> ev = EvDisconnected \<and> p < length ops \<and> ops ! p = OpConnect
      | (ev, DisconnectOnDisconnected p t) \<Rightarrow>
          ev = EvDisconnected \<and> p < length ops \<and> ops ! p = OpDisconnect)"

definition promise_inv :: "world \<Rightarrow> bool" where
  "promise_inv w \<longleftrightarrow>
     (\<forall>x \<in> set (listeners w). listener_ok (map fst (promises w)) x) \<and>
     (\<forall>p \<in> set (write_callbacks w). p < length (promises w) \<and> fst (promises w ! p) = OpSend) \<and>
     (\<forall>p < length (promises w). fst (promises w ! p) = OpDisconnect \<longrightarrow>
        snd (promises w ! p) = Pending \<or> snd (promises w ! p) = Resolved) \<and>
     (\<forall>p < length (promises w). promises w ! p = (OpDisconnect, Pending) \<longrightarrow>
        (\<exists>t. (EvDisconnected, DisconnectOnDisconnected p t) \<in> set (listeners w))) \<and>
     (\<forall>p < length (promises w). promises w ! p = (OpSend, Pending) \<longrightarrow>
        p \<in> set (write_callbacks w))"

fun target :: "listener \<Rightarrow> nat" where
  "target (ConnectOnConnected p) = p"
| "target (ConnectOnDisconnected p) = p"
| "target (DisconnectOnDisconnected p t) = p"

definition data_inv :: "world \<Rightarrow> bool" where
  "data_inv w \<longleftrightarrow>
     (connected (tdata w) \<longrightarrow> socket (tdata w) \<noteq> None) \<and>
     (socket (tdata w) = None \<longrightarrow> error (tdata w) = None) \<and>
     CHR 0x0A \<notin> set (inboundBuffer w)"

text \<open>
  \<open>timer_inv\<close>: the active timeouts have distinct identifiers, all issued already, and
  the delay of each is the 5000 ms of \<^verbatim>\<open>disconnect\<close>.
\<close>

definition timer_inv :: "world \<Rightarrow> bool" where
  "timer_inv w \<longleftrightarrow>
     distinct (map fst (timers w)) \<and>
     (\<forall>x \<in> set (timers w). fst x < next_timer w \<and> fst (snd x) = 5000)"

section \<open>Runs of events\<close>

text \<open>
  \<open>exec\<close> runs a list of events whether or not the environment can raise them, and
  \<open>admissible\<close> says that it can raise each of them in turn;
  \<open>disconnections\<close> are the \<^verbatim>\<open>disconnected\<close> notifications emitted or scheduled so far.
\<close>

definition exec :: "(string \<Rightarrow> js_error + js_value) \<Rightarrow> event list \<Rightarrow> world \<Rightarrow> world" where
  "exec parse es w = foldl (\<lambda>w' e. fire parse e w') w es"

fun admissible :: "(string \<Rightarrow> js_error + js_value) \<Rightarrow> event list \<Rightarrow> world \<Rightarrow> bool" where
  "admissible parse [] w = True"
| "admissible parse (e # es) w = (enabled e w \<and> admissible parse es (fire parse e w))"

definition is_Disconnected :: "notification \<Rightarrow> bool" where
  "is_Disconnected n = (case n of Disconnected err \<Rightarrow> True | _ \<Rightarrow> False)"

definition disconnections :: "world \<Rightarrow> notification list" where
  "disconnections w = filter is_Disconnected (emitted w @ immediates w)"

section \<open>The stored options\<close>

text \<open>
  The value a list of properties gives a key (the last entry for the key counts, as in
  an object literal), the value of an own property of the stored options, and the
  value the \<^verbatim>\<open>extra\<close> argument gives for a key. \<open>unique_keys\<close> says that \<^verbatim>\<open>extra\<close>
  is listed with each key once, as the own properties of an object are.
\<close>

definition property_of :: "(string \<times> js_value) list \<Rightarrow> string \<Rightarrow> js_value option" where
  "property_of ps k = map_of (rev ps) k"

definition own_property :: "js_object \<Rightarrow> string \<Rightarrow> js_value option" where
  "own_property obj k = property_of (properties obj) k"

definition extra_property :: "js_value \<Rightarrow> string \<Rightarrow> js_value option" where
  "extra_property extra k = (case extra of JObject ps \<Rightarrow> property_of ps k | _ \<Rightarrow> None)"

definition unique_keys :: "js_value \<Rightarrow> bool" where
  "unique_keys extra = (case extra of JObject ps \<Rightarrow> distinct (map fst ps) | _ \<Rightarrow> True)"

section \<open>Lemmas\<close>

subsection \<open>The loop of onSocketData\<close>

lemma loop_body_eq: "loop_body parse candidate q = q @ notification_for parse candidate"
  by (simp add: loop_body_def notification_for_def split: sum.splits)

lemma split_lines_no_delimiter:
  "CHR 0x0A \<notin> set s \<Longrightarrow> split_lines cur s = ([], cur @ s)"
  by (induction s arbitrary: cur) auto

lemma indexOf_takeWhile:
  "c \<in> set s \<Longrightarrow> indexOf s c = int (length (takeWhile (\<lambda>x. x \<noteq> c) s))"
proof (induction s)
  case Nil
  then show ?case by simp
next
  case (Cons x xs)
  show ?case
  proof (cases "x = c")
    case True
    then show ?thesis by simp
  next
    case False
    with Cons.prems have mem: "c \<in> set xs" by simp
    then have "0 \<le> indexOf xs c" by (simp add: indexOf_nonneg_iff)
    with False Cons.IH[OF mem] show ?thesis by (simp add: Let_def)
  qed
qed

lemma split_lines_at_delimiter:
  "CHR 0x0A \<in> set s \<Longrightarrow>
   split_lines cur s =
     ((cur @ takeWhile (\<lambda>x. x \<noteq> CHR 0x0A) s) #
        fst (split_lines [] (drop (Suc (length (takeWhile (\<lambda>x. x \<noteq> CHR 0x0A) s))) s)),
      snd (split_lines [] (drop (Suc (length (takeWhile (\<lambda>x. x \<noteq> CHR 0x0A) s))) s)))"
proof (induction s arbitrary: cur)
  case Nil
  then show ?case by simp
next
  case (Cons c s)
  show ?case
  proof (cases "c = CHR 0x0A")
    case True
    then show ?thesis by simp
  next
    case False
    with Cons.prems have mem: "CHR 0x0A \<in> set s" by simp
    have "split_lines (cur @ [c]) s =
      (((cur @ [c]) @ takeWhile (\<lambda>x. x \<noteq> CHR 0x0A) s) #
        fst (split_lines [] (drop (Suc (length (takeWhile (\<lambda>x. x \<noteq> CHR 0x0A) s))) s)),
       snd (split_lines [] (drop (Suc (length (takeWhile (\<lambda>x. x \<noteq> CHR 0x0A) s))) s)))"
      by (rule Cons.IH[OF mem])
    with False show ?thesis by simp
  qed
qed

lemma while_delimiter_eq:
  "while_delimiter parse buf q =
     (remainder buf, q @ concat (map (notification_for parse) (complete_lines buf)))"
proof (induction parse buf q rule: while_delimiter.induct)
  case (1 parse buf q)
  show ?case
  proof (cases "CHR 0x0A \<in> set buf")
    case True
    let ?n = "length (takeWhile (\<lambda>x. x \<noteq> CHR 0x0A) buf)"
    have idx: "indexOf buf (CHR 0x0A) = int ?n" using True by (rule indexOf_takeWhile)
    have sub: "substr buf 0 (int ?n) = takeWhile (\<lambda>x. x \<noteq> CHR 0x0A) buf"
      by (simp add: substr_def substr_start_def takeWhile_eq_take[symmetric])
    have rest: "substr_from buf (int ?n + 1) = drop (Suc ?n) buf"
      by (simp add: substr_from_def substr_start_def nat_add_distrib)
    have IH: "while_delimiter parse (drop (Suc ?n) buf) (loop_body parse (takeWhile (\<lambda>x. x \<noteq> CHR 0x0A) buf) q)
      = (remainder (drop (Suc ?n) buf),
         loop_body parse (takeWhile (\<lambda>x. x \<noteq> CHR 0x0A) buf) q
           @ concat (map (notification_for parse) (complete_lines (drop (Suc ?n) buf))))"
    proof -
      have "0 \<le> indexOf buf (CHR 0x0A)" using idx by simp
      from "1.IH"[OF refl this] show ?thesis by (simp add: idx sub rest)
    qed
    have "while_delimiter parse buf q =
        while_delimiter parse (drop (Suc ?n) buf) (loop_body parse (takeWhile (\<lambda>x. x \<noteq> CHR 0x0A) buf) q)"
      by (subst while_delimiter.simps) (simp add: idx sub rest Let_def)
    also note IH
    finally show ?thesis
      using split_lines_at_delimiter[OF True, of "[]"]
      by (simp add: remainder_def complete_lines_def loop_body_eq)
  next
    case False
    then have "indexOf buf (CHR 0x0A) < 0"
      using indexOf_nonneg_iff[of buf "CHR 0x0A"] by simp
    then have "while_delimiter parse buf q = (buf, q)"
      by (subst while_delimiter.simps) (simp add: Let_def)
    with False show ?thesis
      by (simp add: remainder_def complete_lines_def split_lines_no_delimiter)
  qed
qed

lemma split_lines_append:
  "split_lines cur (s @ t) =
     (fst (split_lines cur s) @ fst (split_lines (snd (split_lines cur s)) t),
      snd (split_lines (snd (split_lines cur s)) t))"
proof (induction s arbitrary: cur)
  case Nil
  show ?case by simp
next
  case (Cons c s)
  show ?case
  proof (cases "c = CHR 0x0A")
    case True
    then show ?thesis using Cons.IH[of "[]"] by simp
  next
    case False
    then show ?thesis using Cons.IH[of "cur @ [c]"] by simp
  qed
qed

lemma complete_lines_append:
  "complete_lines (s @ t) = complete_lines s @ complete_lines (remainder s @ t)"
proof -
  have "split_lines [] (remainder s @ t) = split_lines (remainder s) t"
  proof (cases "CHR 0x0A \<in> set (remainder s)")
    case False
    then show ?thesis
      using split_lines_append[of "[]" "remainder s" t]
      by (simp add: split_lines_no_delimiter)
  next
    case True
    have "\<And>cur. CHR 0x0A \<notin> set cur \<Longrightarrow> CHR 0x0A \<notin> set (snd (split_lines cur s))"
      by (induction s) auto
    from this[of "[]"] True show ?thesis by (simp add: remainder_def)
  qed
  then show ?thesis
    using split_lines_append[of "[]" s t] by (simp add: complete_lines_def remainder_def)
qed

lemma split_lines_snd_no_delimiter:
  "CHR 0x0A \<notin> set cur \<Longrightarrow> CHR 0x0A \<notin> set (snd (split_lines cur s))"
  by (induction s arbitrary: cur) auto

lemma remainder_no_delimiter: "CHR 0x0A \<notin> set (remainder s)"
  by (simp add: remainder_def split_lines_snd_no_delimiter)

lemma remainder_append: "remainder (s @ t) = remainder (remainder s @ t)"
proof -
  have "split_lines [] (remainder s @ t) = split_lines (remainder s) t"
    using split_lines_append[of "[]" "remainder s" t] remainder_no_delimiter[of s]
    by (simp add: split_lines_no_delimiter)
  then show ?thesis
    using split_lines_append[of "[]" s t] by (simp add: remainder_def)
qed

lemma complete_lines_no_delimiter: "CHR 0x0A \<notin> set s \<Longrightarrow> complete_lines s = []"
  by (simp add: complete_lines_def split_lines_no_delimiter)

lemma remainder_id: "CHR 0x0A \<notin> set s \<Longrightarrow> remainder s = s"
  by (simp add: remainder_def split_lines_no_delimiter)

lemma length_split_lines: "length (fst (split_lines cur s)) = count_list s (CHR 0x0A)"
  by (induction s arbitrary: cur) auto

lemma length_complete_lines: "length (complete_lines s) = count_list s (CHR 0x0A)"
  by (simp add: complete_lines_def length_split_lines)

lemma count_list_no_delimiter: "CHR 0x0A \<notin> set s \<Longrightarrow> count_list s (CHR 0x0A) = 0"
  by (induction s) auto

lemma onSocketData_eq:
  "onSocketData parse chunk w =
     w\<lparr>tdata := (tdata w)\<lparr>buffer := Some (remainder (inboundBuffer w @ chunk))\<rparr>,
       immediates := immediates w @
         concat (map (notification_for parse) (complete_lines (inboundBuffer w @ chunk)))\<rparr>"
  by (simp add: onSocketData_def inboundBuffer_def while_delimiter_eq Let_def)

lemma inboundBuffer_onSocketData:
  "inboundBuffer (onSocketData parse chunk w) = remainder (inboundBuffer w @ chunk)"
  by (simp add: onSocketData_eq inboundBuffer_def)

lemma immediates_onSocketData:
  "immediates (onSocketData parse chunk w) =
     immediates w @ concat (map (notification_for parse) (complete_lines (inboundBuffer w @ chunk)))"
  by (simp add: onSocketData_eq)

lemma receive_eq:
  "CHR 0x0A \<notin> set (inboundBuffer w) \<Longrightarrow>
   inboundBuffer (receive parse chunks w) = remainder (inboundBuffer w @ concat chunks) \<and>
   immediates (receive parse chunks w) =
     immediates w @
       concat (map (notification_for parse) (complete_lines (inboundBuffer w @ concat chunks)))"
proof (induction chunks arbitrary: w)
  case Nil
  then show ?case
    by (simp add: receive_def remainder_id complete_lines_no_delimiter)
next
  case (Cons c cs)
  let ?w = "onSocketData parse c w"
  have nd: "CHR 0x0A \<notin> set (inboundBuffer ?w)"
    by (simp add: inboundBuffer_onSocketData remainder_no_delimiter)
  have step: "receive parse (c # cs) w = receive parse cs ?w"
    by (simp add: receive_def)
  have r: "remainder (remainder (inboundBuffer w @ c) @ concat cs)
      = remainder (inboundBuffer w @ concat (c # cs))"
    using remainder_append[of "inboundBuffer w @ c" "concat cs"] by simp
  have l: "complete_lines (inboundBuffer w @ concat (c # cs))
      = complete_lines (inboundBuffer w @ c) @
        complete_lines (remainder (inboundBuffer w @ c) @ concat cs)"
    using complete_lines_append[of "inboundBuffer w @ c" "concat cs"] by simp
  from Cons.IH[OF nd] have
    b: "inboundBuffer (receive parse cs ?w) = remainder (inboundBuffer ?w @ concat cs)" and
    i: "immediates (receive parse cs ?w) =
          immediates ?w @
            concat (map (notification_for parse) (complete_lines (inboundBuffer ?w @ concat cs)))"
    by simp_all
  have "inboundBuffer (receive parse (c # cs) w) = remainder (inboundBuffer w @ concat (c # cs))"
    by (simp only: step b inboundBuffer_onSocketData r)
  moreover have "immediates (receive parse (c # cs) w) =
      immediates w @
        concat (map (notification_for parse) (complete_lines (inboundBuffer w @ concat (c # cs))))"
    by (simp only: step i inboundBuffer_onSocketData immediates_onSocketData l
        map_append concat_append append_assoc)
  ultimately show ?case by simp
qed

lemma length_notifications:
  "length (concat (map (notification_for parse) ls)) = length (filter (\<lambda>l. \<not> dropped parse l) ls)"
  by (induction ls) (auto simp: notification_for_def dropped_def split: sum.splits)

subsection \<open>What an emission leaves alone\<close>

lemma foldl_invoke_field:
  assumes "\<And>l w'. g (invoke l n (removeListener ev l w')) = g w'"
  shows "g (foldl (\<lambda>w' l. invoke l n (removeListener ev l w')) w ls) = g w"
  using assms by (induction ls arbitrary: w) simp_all

lemma emitted_invoke: "emitted (invoke l n (removeListener ev l w)) = emitted w"
  by (cases l) (simp_all add: resolve_def reject_def removeListener_def clearTimeout_def)

lemma immediates_invoke: "immediates (invoke l n (removeListener ev l w)) = immediates w"
  by (cases l) (simp_all add: resolve_def reject_def removeListener_def clearTimeout_def)

lemma tdata_invoke: "tdata (invoke l n (removeListener ev l w)) = tdata w"
  by (cases l) (simp_all add: resolve_def reject_def removeListener_def clearTimeout_def)

lemma emitted_emit: "emitted (emit n w) = emitted w @ [n]"
  unfolding emit_def by (subst foldl_invoke_field[where g = emitted]) (simp_all add: emitted_invoke)

lemma immediates_emit: "immediates (emit n w) = immediates w"
  unfolding emit_def by (subst foldl_invoke_field[where g = immediates]) (simp_all add: immediates_invoke)

lemma tdata_emit: "tdata (emit n w) = tdata w"
  unfolding emit_def by (subst foldl_invoke_field[where g = tdata]) (simp_all add: tdata_invoke)

lemma flush_eq:
  "emitted (flush parse w) = emitted w @ immediates w \<and> immediates (flush parse w) = []
   \<and> tdata (flush parse w) = tdata w"
proof (induction "immediates w" arbitrary: w)
  case Nil
  then show ?case by (simp add: flush_def)
next
  case (Cons n rest)
  let ?w = "fire parse RunImmediate w"
  from Cons.hyps(2) have w': "immediates ?w = rest" "emitted ?w = emitted w @ [n]" "tdata ?w = tdata w"
    by (simp_all add: immediates_emit emitted_emit tdata_emit flip: Cons.hyps(2))
  have "flush parse w = flush parse ?w"
    using Cons.hyps(2)[symmetric] w'(1) by (simp add: flush_def funpow_swap1)
  with Cons.hyps(1)[of ?w] w' Cons.hyps(2)[symmetric] show ?case by simp
qed

lemma TLSTransport_example:
  "TLSTransport (JString ''example.com'') (JNumber (Finite 1234)) JUndefined = Inr example_transport"
  by (simp add: TLSTransport_def example_transport_def check_assert_def check_nonEmptyString_def
      check_string_def check_inRange_def check_greaterOrEqual_def check_lessOrEqual_def
      check_number_def check_maybe_def Object_assign_def Set_property_def plain_object_def)

subsection \<open>Every step keeps the invariants\<close>

lemma listener_ok_extend: "listener_ok ops x \<Longrightarrow> listener_ok (ops @ ops2) x"
  by (auto simp: listener_ok_def nth_append split: prod.splits listener.splits)

lemma length_settle [simp]: "length (settle p out ps) = length ps"
  by (simp add: settle_def)

lemma map_fst_settle [simp]: "map fst (settle p out ps) = map fst ps"
  by (simp add: settle_def map_update list_update_same_conv)

lemma nth_settle_other: "q \<noteq> p \<Longrightarrow> settle p out ps ! q = ps ! q"
  by (simp add: settle_def)

lemma fst_nth_settle: "q < length ps \<Longrightarrow> fst (settle p out ps ! q) = fst (ps ! q)"
  by (metis map_fst_settle length_settle nth_map)

lemma snd_nth_settle:
  "q < length ps \<Longrightarrow>
   snd (settle p out ps ! q) = (if q = p \<and> snd (ps ! q) = Pending then out else snd (ps ! q))"
  by (auto simp: settle_def)

lemma promise_inv_extend:
  assumes inv: "promise_inv w"
    and ps: "promises w' = promises w @ [(op, out)]"
    and ls: "listeners w' = listeners w @ new"
    and ws: "write_callbacks w' = write_callbacks w @ writes"
    and new_ok: "\<forall>x \<in> set new. listener_ok (map fst (promises w')) x"
    and writes_ok: "writes \<noteq> [] \<longrightarrow> writes = [length (promises w)] \<and> op = OpSend"
    and disc: "op = OpDisconnect \<longrightarrow>
        out = Resolved \<or>
        (out = Pending \<and> (\<exists>t. (EvDisconnected, DisconnectOnDisconnected (length (promises w)) t) \<in> set new))"
    and sent: "op = OpSend \<and> out = Pending \<longrightarrow> writes \<noteq> []"
  shows "promise_inv w'"
proof -
  from inv have
    L: "\<forall>x \<in> set (listeners w). listener_ok (map fst (promises w)) x" and
    W: "\<forall>p \<in> set (write_callbacks w). p < length (promises w) \<and> fst (promises w ! p) = OpSend" and
    N: "\<forall>p < length (promises w). fst (promises w ! p) = OpDisconnect \<longrightarrow>
        snd (promises w ! p) = Pending \<or> snd (promises w ! p) = Resolved" and
    H: "\<forall>p < length (promises w). promises w ! p = (OpDisconnect, Pending) \<longrightarrow>
        (\<exists>t. (EvDisconnected, DisconnectOnDisconnected p t) \<in> set (listeners w))" and
    S: "\<forall>p < length (promises w). promises w ! p = (OpSend, Pending) \<longrightarrow>
        p \<in> set (write_callbacks w)"
    by (simp_all add: promise_inv_def)
  have L': "\<forall>x \<in> set (listeners w'). listener_ok (map fst (promises w')) x"
    using L new_ok listener_ok_extend[of "map fst (promises w)" _ "[op]"] by (auto simp: ls ps)
  have W': "\<forall>p \<in> set (write_callbacks w'). p < length (promises w') \<and> fst (promises w' ! p) = OpSend"
    using W writes_ok by (cases "writes = []") (auto simp: ws ps nth_append)
  have N': "\<forall>p < length (promises w'). fst (promises w' ! p) = OpDisconnect \<longrightarrow>
        snd (promises w' ! p) = Pending \<or> snd (promises w' ! p) = Resolved"
    using N disc by (auto simp: ps nth_append less_Suc_eq)
  have H': "\<forall>p < length (promises w'). promises w' ! p = (OpDisconnect, Pending) \<longrightarrow>
        (\<exists>t. (EvDisconnected, DisconnectOnDisconnected p t) \<in> set (listeners w'))"
  proof (intro allI impI)
    fix p assume p: "p < length (promises w')" and pend: "promises w' ! p = (OpDisconnect, Pending)"
    show "\<exists>t. (EvDisconnected, DisconnectOnDisconnected p t) \<in> set (listeners w')"
    proof (cases "p < length (promises w)")
      case True
      with pend have "promises w ! p = (OpDisconnect, Pending)" by (simp add: ps nth_append)
      with H True show ?thesis by (auto simp: ls)
    next
      case False
      with p have pe: "p = length (promises w)" by (simp add: ps)
      with pend have "op = OpDisconnect" "out = Pending" by (simp_all add: ps)
      with disc pe show ?thesis by (auto simp: ls)
    qed
  qed
  have S': "\<forall>p < length (promises w'). promises w' ! p = (OpSend, Pending) \<longrightarrow>
        p \<in> set (write_callbacks w')"
  proof (intro allI impI)
    fix p assume p: "p < length (promises w')" and pend: "promises w' ! p = (OpSend, Pending)"
    show "p \<in> set (write_callbacks w')"
    proof (cases "p < length (promises w)")
      case True
      with pend have "promises w ! p = (OpSend, Pending)" by (simp add: ps nth_append)
      with S True show ?thesis by (auto simp: ws)
    next
      case False
      with p have pe: "p = length (promises w)" by (simp add: ps)
      with pend have "op = OpSend" "out = Pending" by (simp_all add: ps)
      with sent writes_ok pe show ?thesis by (auto simp: ws)
    qed
  qed
  from L' W' N' H' S' show ?thesis by (simp add: promise_inv_def)
qed

lemma promise_inv_connect: "promise_inv w \<Longrightarrow> promise_inv (connect w)"
proof (cases "socket (tdata w)")
  case None
  assume inv: "promise_inv w"
  show ?thesis
    by (rule promise_inv_extend[OF inv, where op = OpConnect and out = Pending
          and new = "[(EvConnected, ConnectOnConnected (length (promises w))),
                      (EvDisconnected, ConnectOnDisconnected (length (promises w)))]"
          and writes = "[]"])
      (simp_all add: None connect_def Let_def new_promise_def once_def createSocket_def
        socket_call_def listener_ok_def nth_append)
next
  case (Some s)
  assume inv: "promise_inv w"
  show ?thesis
  proof (cases "connected (tdata w)")
    case True
    show ?thesis
      by (rule promise_inv_extend[OF inv, where op = OpConnect and out = Resolved
            and new = "[]" and writes = "[]"])
        (simp_all add: Some True connect_def Let_def new_promise_def)
  next
    case False
    show ?thesis
      by (rule promise_inv_extend[OF inv, where op = OpConnect
            and out = "Rejected (JsError Error ''Connection already in progress'')"
            and new = "[]" and writes = "[]"])
        (simp_all add: Some False connect_def Let_def new_promise_def)
  qed
qed

lemma promise_inv_tdata: "promise_inv (w\<lparr>tdata := d\<rparr>) = promise_inv w"
  by (simp add: promise_inv_def)

lemma promise_inv_disconnect: "promise_inv w \<Longrightarrow> promise_inv (disconnect w)"
proof (cases "socket (tdata w)")
  case None
  assume inv: "promise_inv w"
  show ?thesis
    by (rule promise_inv_extend[OF inv, where op = OpDisconnect and out = Resolved
          and new = "[]" and writes = "[]"])
      (simp_all add: None disconnect_def Let_def new_promise_def)
next
  case (Some s)
  assume inv: "promise_inv w"
  show ?thesis
    by (rule promise_inv_extend[OF inv, where op = OpDisconnect and out = Pending
          and new = "[(EvDisconnected, DisconnectOnDisconnected (length (promises w)) (next_timer w))]"
          and writes = "[]"])
      (simp_all add: Some disconnect_def Let_def new_promise_def once_def setTimeout_def
        socket_call_def listener_ok_def nth_append)
qed

lemma promise_inv_send: "promise_inv w \<Longrightarrow> promise_inv (send d w)"
proof -
  assume inv: "promise_inv w"
  consider (invalid) "\<not> check_nonEmptyString d"
    | (offline) "check_nonEmptyString d" "\<not> connected (tdata w)"
    | (null) "check_nonEmptyString d" "connected (tdata w)" "socket (tdata w) = None"
    | (writes) "check_nonEmptyString d" "connected (tdata w)" "socket (tdata w) \<noteq> None"
    by (cases "socket (tdata w)") auto
  then show ?thesis
  proof cases
    case invalid
    show ?thesis
      by (rule promise_inv_extend[OF inv, where op = OpSend
            and out = "Rejected (JsError TypeError ''missing/invalid \"data\" parameter'')"
            and new = "[]" and writes = "[]"])
        (simp_all add: invalid send_def Let_def new_promise_def)
  next
    case offline
    show ?thesis
      by (rule promise_inv_extend[OF inv, where op = OpSend
            and out = "Rejected (JsError DisconnectedError ''Transport not connected'')"
            and new = "[]" and writes = "[]"])
        (simp_all add: offline send_def Let_def new_promise_def)
  next
    case null
    show ?thesis
      by (rule promise_inv_extend[OF inv, where op = OpSend
            and out = "Rejected (JsError TypeError ''Cannot read property 'write' of null'')"
            and new = "[]" and writes = "[]"])
        (simp_all add: null send_def Let_def new_promise_def)
  next
    case writes
    then obtain s where wr: "check_nonEmptyString d" "connected (tdata w)" "socket (tdata w) = Some s"
      by auto
    show ?thesis
      by (rule promise_inv_extend[OF inv, where op = OpSend and out = Pending
            and new = "[]" and writes = "[length (promises w)]"])
        (simp_all add: wr send_def Let_def new_promise_def socket_call_def)
  qed
qed

lemma promise_inv_settle:
  assumes inv: "promise_inv w"
    and ps: "promises w' = settle p out (promises w)"
    and ls: "set (listeners w') \<subseteq> set (listeners w)"
    and keep: "\<forall>q t. q \<noteq> p \<longrightarrow>
        (EvDisconnected, DisconnectOnDisconnected q t) \<in> set (listeners w) \<longrightarrow>
        (EvDisconnected, DisconnectOnDisconnected q t) \<in> set (listeners w')"
    and wc: "set (write_callbacks w') \<subseteq> set (write_callbacks w)"
    and keep_wc: "\<forall>q. q \<noteq> p \<longrightarrow> q \<in> set (write_callbacks w) \<longrightarrow> q \<in> set (write_callbacks w')"
    and out: "out = Resolved \<or>
        (p < length (promises w) \<longrightarrow> fst (promises w ! p) \<noteq> OpDisconnect) \<and> out \<noteq> Pending"
  shows "promise_inv w'"
proof -
  from inv have
    L: "\<forall>x \<in> set (listeners w). listener_ok (map fst (promises w)) x" and
    W: "\<forall>p \<in> set (write_callbacks w). p < length (promises w) \<and> fst (promises w ! p) = OpSend" and
    N: "\<forall>p < length (promises w). fst (promises w ! p) = OpDisconnect \<longrightarrow>
        snd (promises w ! p) = Pending \<or> snd (promises w ! p) = Resolved" and
    H: "\<forall>p < length (promises w). promises w ! p = (OpDisconnect, Pending) \<longrightarrow>
        (\<exists>t. (EvDisconnected, DisconnectOnDisconnected p t) \<in> set (listeners w))" and
    S: "\<forall>p < length (promises w). promises w ! p = (OpSend, Pending) \<longrightarrow>
        p \<in> set (write_callbacks w)"
    by (simp_all add: promise_inv_def)
  have L': "\<forall>x \<in> set (listeners w'). listener_ok (map fst (promises w')) x"
    using L ls by (auto simp: ps)
  have W': "\<forall>p \<in> set (write_callbacks w'). p < length (promises w') \<and> fst (promises w' ! p) = OpSend"
    using W wc by (auto simp: ps fst_nth_settle)
  have N': "\<forall>q < length (promises w'). fst (promises w' ! q) = OpDisconnect \<longrightarrow>
        snd (promises w' ! q) = Pending \<or> snd (promises w' ! q) = Resolved"
    using N out by (auto simp: ps fst_nth_settle snd_nth_settle)
  have H': "\<forall>q < length (promises w'). promises w' ! q = (OpDisconnect, Pending) \<longrightarrow>
        (\<exists>t. (EvDisconnected, DisconnectOnDisconnected q t) \<in> set (listeners w'))"
  proof (intro allI impI)
    fix q assume q: "q < length (promises w')" and pend: "promises w' ! q = (OpDisconnect, Pending)"
    from q have q': "q < length (promises w)" by (simp add: ps)
    from pend have f: "fst (promises w' ! q) = OpDisconnect" and s: "snd (promises w' ! q) = Pending"
      by simp_all
    have qp: "q \<noteq> p"
    proof
      assume "q = p"
      with s q' out show False
        by (auto simp: ps snd_nth_settle split: if_splits)
    qed
    with pend have "promises w ! q = (OpDisconnect, Pending)"
      by (simp add: ps nth_settle_other)
    with H q' obtain t where "(EvDisconnected, DisconnectOnDisconnected q t) \<in> set (listeners w)"
      by blast
    with keep qp show "\<exists>t. (EvDisconnected, DisconnectOnDisconnected q t) \<in> set (listeners w')"
      by blast
  qed
  have S': "\<forall>q < length (promises w'). promises w' ! q = (OpSend, Pending) \<longrightarrow>
        q \<in> set (write_callbacks w')"
  proof (intro allI impI)
    fix q assume q: "q < length (promises w')" and pend: "promises w' ! q = (OpSend, Pending)"
    from q have q': "q < length (promises w)" by (simp add: ps)
    from pend have s: "snd (promises w' ! q) = Pending" by simp
    have qp: "q \<noteq> p"
    proof
      assume "q = p"
      with s q' out show False
        by (auto simp: ps snd_nth_settle split: if_splits)
    qed
    with pend have "promises w ! q = (OpSend, Pending)"
      by (simp add: ps nth_settle_other)
    with S q' have "q \<in> set (write_callbacks w)" by blast
    with keep_wc qp show "q \<in> set (write_callbacks w')" by blast
  qed
  from L' W' N' H' S' show ?thesis by (simp add: promise_inv_def)
qed

lemma in_set_remove1D: "x \<in> set (remove1 y xs) \<Longrightarrow> x \<in> set xs"
  by (metis notin_set_remove1)

lemma promise_inv_invoke:
  assumes inv: "promise_inv w" and ok: "listener_ok (map fst (promises w)) (ev, l)"
  shows "promise_inv (invoke l n (removeListener ev l w))"
proof (cases l)
  case (ConnectOnConnected p)
  with ok have p: "p < length (promises w)" "fst (promises w ! p) = OpConnect"
    by (auto simp: listener_ok_def)
  show ?thesis
    by (rule promise_inv_settle[OF inv, where p = p and out = Resolved])
      (auto simp: ConnectOnConnected resolve_def removeListener_def dest: in_set_remove1D)
next
  case (ConnectOnDisconnected p)
  with ok have p: "p < length (promises w)" "fst (promises w ! p) = OpConnect"
    by (auto simp: listener_ok_def)
  show ?thesis
    by (rule promise_inv_settle[OF inv, where p = p
          and out = "Rejected (case n of Disconnected (Some e) \<Rightarrow> e | _ \<Rightarrow> JsError Error ''Connection failed'')"])
      (auto simp: ConnectOnDisconnected reject_def removeListener_def p dest: in_set_remove1D)
next
  case (DisconnectOnDisconnected p t)
  show ?thesis
    by (rule promise_inv_settle[OF inv, where p = p and out = Resolved])
      (auto simp: DisconnectOnDisconnected resolve_def removeListener_def clearTimeout_def
        dest: in_set_remove1D)
qed

lemma map_fst_promises_invoke:
  "map fst (promises (invoke l n (removeListener ev l w))) = map fst (promises w)"
  by (cases l) (simp_all add: resolve_def reject_def removeListener_def clearTimeout_def)

lemma promise_inv_foldl:
  "promise_inv w \<Longrightarrow> \<forall>l \<in> set ls. listener_ok (map fst (promises w)) (ev, l) \<Longrightarrow>
   promise_inv (foldl (\<lambda>w' l. invoke l n (removeListener ev l w')) w ls)"
proof (induction ls arbitrary: w)
  case Nil
  then show ?case by simp
next
  case (Cons l ls)
  have "promise_inv (invoke l n (removeListener ev l w))"
    using Cons.prems by (simp add: promise_inv_invoke)
  moreover have "\<forall>l' \<in> set ls. listener_ok (map fst (promises (invoke l n (removeListener ev l w)))) (ev, l')"
    using Cons.prems by (simp add: map_fst_promises_invoke)
  ultimately show ?case using Cons.IH by simp
qed

lemma promise_inv_emit: "promise_inv w \<Longrightarrow> promise_inv (emit n w)"
proof -
  assume inv: "promise_inv w"
  let ?w = "w\<lparr>emitted := emitted w @ [n]\<rparr>"
  have inv': "promise_inv ?w" using inv by (simp add: promise_inv_def)
  have "\<forall>l \<in> set (map snd (filter (\<lambda>(ev, l). ev = event_of n) (listeners w))).
      listener_ok (map fst (promises ?w)) (event_of n, l)"
    using inv by (auto simp: promise_inv_def)
  from promise_inv_foldl[OF inv' this] show ?thesis by (simp add: emit_def)
qed

lemma promise_inv_fire: "promise_inv w \<Longrightarrow> promise_inv (fire parse e w)"
proof (cases e)
  case CallConnect
  assume "promise_inv w" then show ?thesis by (simp add: CallConnect promise_inv_connect)
next
  case CallDisconnect
  assume "promise_inv w" then show ?thesis by (simp add: CallDisconnect promise_inv_disconnect)
next
  case (CallSend d)
  assume "promise_inv w" then show ?thesis by (simp add: CallSend promise_inv_send)
next
  case SecureConnect
  assume "promise_inv w" then show ?thesis
    by (simp add: SecureConnect onSocketSecureConnect_def setImmediate_def promise_inv_def)
next
  case Timeout
  assume "promise_inv w" then show ?thesis
    by (simp add: Timeout onSocketTimeout_def promise_inv_disconnect promise_inv_tdata)
next
  case (SocketError err)
  assume "promise_inv w" then show ?thesis
    by (simp add: SocketError onSocketError_def promise_inv_def)
next
  case Close
  assume "promise_inv w" then show ?thesis
    by (simp add: Close onSocketClose_def setImmediate_def promise_inv_def)
next
  case (SocketData chunk)
  assume "promise_inv w" then show ?thesis
    by (simp add: SocketData onSocketData_eq promise_inv_def)
next
  case (WriteCallback p err)
  assume inv: "promise_inv w"
  show ?thesis
  proof (cases "p \<in> set (write_callbacks w)")
    case True
    have "promise_inv (resolve p (w\<lparr>write_callbacks := remove1 p (write_callbacks w)\<rparr>))"
      by (rule promise_inv_settle[OF inv, where p = p and out = Resolved])
        (auto simp: resolve_def dest: in_set_remove1D)
    with True show ?thesis by (simp add: WriteCallback)
  next
    case False
    with inv show ?thesis by (simp add: WriteCallback)
  qed
next
  case (TimerExpires t)
  assume "promise_inv w" then show ?thesis
    by (simp add: TimerExpires socket_call_def clearTimeout_def promise_inv_def
        split: list.splits)
next
  case RunImmediate
  assume inv: "promise_inv w"
  show ?thesis
  proof (cases "immediates w")
    case Nil
    with inv show ?thesis by (simp add: RunImmediate)
  next
    case (Cons n rest)
    have "promise_inv (w\<lparr>immediates := rest\<rparr>)" using inv by (simp add: promise_inv_def)
    from promise_inv_emit[OF this] Cons show ?thesis by (simp add: RunImmediate)
  qed
qed

lemma promise_inv_initial: "promise_inv (initial opts)"
  by (simp add: promise_inv_def initial_def)

lemma tdata_connect:
  "tdata (connect w) =
     (case socket (tdata w) of
        Some s \<Rightarrow> tdata w
      | None \<Rightarrow> (tdata w)\<lparr>connected := False, socket := Some (next_socket w)\<rparr>)"
  by (simp add: connect_def Let_def new_promise_def once_def createSocket_def socket_call_def
      split: option.splits)

lemma tdata_disconnect: "tdata (disconnect w) = tdata w"
  by (simp add: disconnect_def Let_def new_promise_def once_def setTimeout_def socket_call_def
      split: option.splits)

lemma tdata_send: "tdata (send d w) = tdata w"
  by (simp add: send_def Let_def new_promise_def socket_call_def split: option.splits)

lemma tdata_fire_RunImmediate: "tdata (fire parse RunImmediate w) = tdata w"
  by (simp add: tdata_emit split: list.splits)

lemma data_inv_fire: "data_inv w \<Longrightarrow> enabled e w \<Longrightarrow> data_inv (fire parse e w)"
proof (cases e)
  case RunImmediate
  assume "data_inv w" then show ?thesis
    unfolding RunImmediate data_inv_def inboundBuffer_def tdata_fire_RunImmediate .
next
  case (SocketData chunk)
  assume inv: "data_inv w"
  have b: "inboundBuffer (onSocketData parse chunk w) = remainder (inboundBuffer w @ chunk)"
    by (rule inboundBuffer_onSocketData)
  have t: "socket (tdata (onSocketData parse chunk w)) = socket (tdata w)"
    "connected (tdata (onSocketData parse chunk w)) = connected (tdata w)"
    "error (tdata (onSocketData parse chunk w)) = error (tdata w)"
    by (simp_all add: onSocketData_eq)
  from inv show ?thesis
    by (simp add: SocketData data_inv_def b t remainder_no_delimiter)
qed (auto simp: data_inv_def inboundBuffer_def tdata_connect tdata_disconnect tdata_send
      onSocketSecureConnect_def onSocketTimeout_def onSocketError_def onSocketClose_def
      setImmediate_def resolve_def socket_call_def clearTimeout_def
      split: option.splits list.splits)

lemma data_inv_initial: "data_inv (initial opts)"
  by (simp add: data_inv_def initial_def inboundBuffer_def)

lemma reachable_invariants: "reachable parse w \<Longrightarrow> data_inv w \<and> promise_inv w"
proof (induction rule: reachable.induct)
  case (reachable_initial opts)
  show ?case by (simp add: data_inv_initial promise_inv_initial)
next
  case (reachable_fire w e)
  then show ?case by (simp add: data_inv_fire promise_inv_fire)
qed

subsection \<open>How a step changes a promise\<close>

lemma nth_promises_fire:
  assumes "p < length (promises w)" "e \<noteq> RunImmediate" "\<forall>err. e \<noteq> WriteCallback p err"
  shows "promises (fire parse e w) ! p = promises w ! p"
  using assms
  by (cases e)
    (auto simp: connect_def disconnect_def send_def Let_def new_promise_def once_def
      createSocket_def socket_call_def setTimeout_def onSocketSecureConnect_def
      onSocketTimeout_def onSocketError_def onSocketClose_def onSocketData_eq setImmediate_def
      resolve_def clearTimeout_def nth_append nth_settle_other split: option.splits list.splits)

lemma nth_promises_invoke:
  "target l \<noteq> p \<Longrightarrow> promises (invoke l n (removeListener ev l w)) ! p = promises w ! p"
  by (cases l) (simp_all add: resolve_def reject_def removeListener_def clearTimeout_def
      nth_settle_other)

lemma nth_promises_foldl:
  "\<forall>l \<in> set ls. target l \<noteq> p \<Longrightarrow>
   promises (foldl (\<lambda>w' l. invoke l n (removeListener ev l w')) w ls) ! p = promises w ! p"
  by (induction ls arbitrary: w) (simp_all add: nth_promises_invoke)

lemma nth_promises_emit:
  assumes inv: "promise_inv w" and p: "p < length (promises w)"
    and op: "fst (promises w ! p) = OpSend
        \<or> fst (promises w ! p) = OpDisconnect \<and> event_of n \<noteq> EvDisconnected
        \<or> event_of n = EvData \<or> event_of n = EvError"
  shows "promises (emit n w) ! p = promises w ! p"
proof -
  have "\<forall>l \<in> set (map snd (filter (\<lambda>(ev, l). ev = event_of n) (listeners w))). target l \<noteq> p"
  proof
    fix l assume "l \<in> set (map snd (filter (\<lambda>(ev, l). ev = event_of n) (listeners w)))"
    then have "(event_of n, l) \<in> set (listeners w)" by auto
    with inv have "listener_ok (map fst (promises w)) (event_of n, l)"
      by (simp add: promise_inv_def)
    with op p show "target l \<noteq> p"
      by (cases l) (auto simp: listener_ok_def)
  qed
  from nth_promises_foldl[OF this] show ?thesis by (simp add: emit_def)
qed

lemma not_pending_invoke:
  assumes "p < length (promises w)"
    and "snd (promises w ! p) \<noteq> Pending \<or> (\<exists>t. l = DisconnectOnDisconnected p t)"
  shows "snd (promises (invoke l n (removeListener ev l w)) ! p) \<noteq> Pending"
  using assms
  by (cases l)
    (auto simp: resolve_def reject_def removeListener_def clearTimeout_def snd_nth_settle)

lemma length_promises_invoke:
  "length (promises (invoke l n (removeListener ev l w))) = length (promises w)"
  by (metis map_fst_promises_invoke length_map)

lemma not_pending_foldl:
  "p < length (promises w) \<Longrightarrow>
   snd (promises w ! p) \<noteq> Pending \<or> (\<exists>t. DisconnectOnDisconnected p t \<in> set ls) \<Longrightarrow>
   snd (promises (foldl (\<lambda>w' l. invoke l n (removeListener ev l w')) w ls) ! p) \<noteq> Pending"
proof (induction ls arbitrary: w)
  case Nil
  then show ?case by simp
next
  case (Cons l ls)
  let ?w = "invoke l n (removeListener ev l w)"
  have len: "p < length (promises ?w)" using Cons.prems(1) by (simp add: length_promises_invoke)
  have "snd (promises ?w ! p) \<noteq> Pending \<or> (\<exists>t. DisconnectOnDisconnected p t \<in> set ls)"
  proof (cases "\<exists>t. DisconnectOnDisconnected p t \<in> set ls")
    case True
    then show ?thesis by simp
  next
    case False
    with Cons.prems(2) have "snd (promises w ! p) \<noteq> Pending \<or> (\<exists>t. l = DisconnectOnDisconnected p t)"
      by auto
    from not_pending_invoke[OF Cons.prems(1) this] show ?thesis by simp
  qed
  from Cons.IH[OF len this] show ?case by simp
qed

lemma emit_Disconnected_resolves:
  assumes inv: "promise_inv w" and p: "p < length (promises w)"
    and pend: "promises w ! p = (OpDisconnect, Pending)"
  shows "promises (emit (Disconnected err) w) ! p = (OpDisconnect, Resolved)"
proof -
  let ?w = "emit (Disconnected err) w"
  from inv p pend obtain t where "(EvDisconnected, DisconnectOnDisconnected p t) \<in> set (listeners w)"
    by (auto simp: promise_inv_def)
  then have "DisconnectOnDisconnected p t
      \<in> set (map snd (filter (\<lambda>(ev, l). ev = event_of (Disconnected err)) (listeners w)))"
    by force
  then have "snd (promises ?w ! p) \<noteq> Pending"
    unfolding emit_def using p by (intro not_pending_foldl) auto
  moreover have m: "map fst (promises ?w) = map fst (promises w)"
    unfolding emit_def
    by (subst foldl_invoke_field[where g = "\<lambda>w. map fst (promises w)"])
      (simp_all add: map_fst_promises_invoke)
  then have len: "length (promises ?w) = length (promises w)" by (metis length_map)
  from m p len pend have f: "fst (promises ?w ! p) = OpDisconnect"
    by (metis fst_conv nth_map)
  moreover from promise_inv_emit[OF inv] f p len
  have "snd (promises ?w ! p) = Pending \<or> snd (promises ?w ! p) = Resolved"
    by (simp add: promise_inv_def)
  ultimately show ?thesis by (metis prod.collapse)
qed

subsection \<open>The example states are reachable\<close>

lemma reachable_example: "reachable parse example_transport"
  unfolding example_transport_def by (rule reachable_initial)

lemma reachable_connecting_example: "reachable parse connecting_example"
  using reachable_fire[OF reachable_example, of CallConnect parse]
  by (simp add: connecting_example_def)

lemma socket_connecting_example: "socket (tdata connecting_example) = Some 0"
  by code_simp

lemma reachable_connected_example: "reachable parse connected_example"
  using reachable_fire[OF reachable_connecting_example, of SecureConnect parse]
  by (simp add: connected_example_def socket_connecting_example)

lemma check_nonEmptyString_iff:
  "check_nonEmptyString d \<longleftrightarrow> (\<exists>text. d = JString text \<and> text \<noteq> [])"
  by (cases d) (simp_all add: check_nonEmptyString_def check_string_def)

subsection \<open>Timeouts\<close>

lemma foldl_invoke_pred:
  assumes "\<And>l w'. P w' \<Longrightarrow> P (invoke l n (removeListener ev l w'))" and "P w"
  shows "P (foldl (\<lambda>w' l. invoke l n (removeListener ev l w')) w ls)"
  using assms by (induction ls arbitrary: w) simp_all

lemma timer_inv_clearTimeout: "timer_inv w \<Longrightarrow> timer_inv (clearTimeout t w)"
  by (simp add: timer_inv_def clearTimeout_def distinct_map_filter)

lemma timer_inv_cong:
  "timers w' = timers w \<Longrightarrow> next_timer w' = next_timer w \<Longrightarrow> timer_inv w' = timer_inv w"
  by (simp add: timer_inv_def)

lemma timer_inv_invoke: "timer_inv w \<Longrightarrow> timer_inv (invoke l n (removeListener ev l w))"
proof (cases l)
  case (DisconnectOnDisconnected p t)
  assume "timer_inv w"
  then have "timer_inv (clearTimeout t w)" by (rule timer_inv_clearTimeout)
  moreover have "timer_inv (invoke l n (removeListener ev l w)) = timer_inv (clearTimeout t w)"
    by (rule timer_inv_cong)
      (simp_all add: DisconnectOnDisconnected resolve_def removeListener_def clearTimeout_def)
  ultimately show ?thesis by simp
qed (simp_all add: timer_inv_def resolve_def reject_def removeListener_def)

lemma timer_inv_emit: "timer_inv w \<Longrightarrow> timer_inv (emit n w)"
proof -
  assume "timer_inv w"
  then have "timer_inv (w\<lparr>emitted := emitted w @ [n]\<rparr>)" by (simp add: timer_inv_def)
  then show ?thesis
    unfolding emit_def
    by (rule foldl_invoke_pred[where P = timer_inv, rotated]) (rule timer_inv_invoke)
qed

lemma timer_inv_disconnect: "timer_inv w \<Longrightarrow> timer_inv (disconnect w)"
  by (cases "socket (tdata w)")
    (auto simp: timer_inv_def disconnect_def Let_def new_promise_def setTimeout_def once_def
      socket_call_def less_Suc_eq)

lemma timer_inv_fire: "timer_inv w \<Longrightarrow> timer_inv (fire parse e w)"
proof (cases e)
  case RunImmediate
  assume inv: "timer_inv w"
  show ?thesis
  proof (cases "immediates w")
    case Nil
    with inv show ?thesis by (simp add: RunImmediate)
  next
    case (Cons n rest)
    have "timer_inv (w\<lparr>immediates := rest\<rparr>)" using inv by (simp add: timer_inv_def)
    from timer_inv_emit[OF this] Cons show ?thesis by (simp add: RunImmediate)
  qed
next
  case Timeout
  assume "timer_inv w"
  then have "timer_inv (w\<lparr>tdata := (tdata w)\<lparr>error := Some (JsError Error ''Connection timed out'')\<rparr>\<rparr>)"
    by (simp add: timer_inv_def)
  then show ?thesis by (simp add: Timeout onSocketTimeout_def timer_inv_disconnect)
next
  case CallDisconnect
  assume "timer_inv w" then show ?thesis by (simp add: CallDisconnect timer_inv_disconnect)
next
  case (TimerExpires t)
  assume "timer_inv w"
  then have "timer_inv (clearTimeout t w)" by (rule timer_inv_clearTimeout)
  then have "timer_inv (socket_call (SocketDestroy s) (clearTimeout t w))" for s
    by (simp add: timer_inv_def socket_call_def)
  with \<open>timer_inv w\<close> show ?thesis by (simp add: TimerExpires split: list.splits)
qed (auto simp: timer_inv_def connect_def send_def Let_def new_promise_def once_def
      createSocket_def socket_call_def onSocketSecureConnect_def onSocketError_def
      onSocketClose_def onSocketData_eq setImmediate_def resolve_def
      split: option.splits)

lemma reachable_timer_inv: "reachable parse w \<Longrightarrow> timer_inv w"
proof (induction rule: reachable.induct)
  case (reachable_initial opts)
  show ?case by (simp add: timer_inv_def initial_def)
next
  case (reachable_fire w e)
  then show ?case by (simp add: timer_inv_fire)
qed

lemma timer_lookup:
  assumes "timer_inv w" "(t, d, s) \<in> set (timers w)"
  shows "filter (\<lambda>(t', _). t' = t) (timers w) = [(t, d, s)]"
proof -
  from assms(1) have dist: "distinct (map fst (timers w))" by (simp add: timer_inv_def)
  have "distinct (map fst xs) \<Longrightarrow> (t, d, s) \<in> set xs \<Longrightarrow>
      filter (\<lambda>(t', _). t' = t) xs = [(t, d, s)]" for xs :: "(nat \<times> nat \<times> nat) list"
  proof (induction xs)
    case Nil
    then show ?case by simp
  next
    case (Cons x xs)
    show ?case
    proof (cases "x = (t, d, s)")
      case True
      with Cons.prems(1) have "t \<notin> fst ` set xs" by simp
      then have "filter (\<lambda>(t', _). t' = t) xs = []"
        by (force simp: filter_empty_conv)
      with True show ?thesis by simp
    next
      case False
      with Cons.prems have mem: "(t, d, s) \<in> set xs" by simp
      then have "t \<in> fst ` set xs" by force
      with Cons.prems(1) have "fst x \<noteq> t" by auto
      with Cons.IH[OF _ mem] Cons.prems(1) show ?thesis by (cases x) simp
    qed
  qed
  from this[OF dist assms(2)] show ?thesis .
qed

subsection \<open>The split loses nothing\<close>

lemma split_lines_join:
  "concat (map (\<lambda>line. line @ [CHR 0x0A]) (fst (split_lines cur s))) @ snd (split_lines cur s)
     = cur @ s"
  by (induction s arbitrary: cur) simp_all

lemma split_lines_fst_no_delimiter:
  "CHR 0x0A \<notin> set cur \<Longrightarrow> \<forall>line \<in> set (fst (split_lines cur s)). CHR 0x0A \<notin> set line"
proof (induction s arbitrary: cur)
  case Nil
  show ?case by simp
next
  case (Cons c s)
  show ?case
  proof (cases "c = CHR 0x0A")
    case True
    with Cons.IH[of "[]"] Cons.prems show ?thesis by simp
  next
    case False
    with Cons.IH[of "cur @ [c]"] Cons.prems show ?thesis by simp
  qed
qed

lemma complete_lines_exact:
  "concat (map (\<lambda>line. line @ [CHR 0x0A]) (complete_lines s)) @ remainder s = s
   \<and> (\<forall>line \<in> set (complete_lines s). CHR 0x0A \<notin> set line)
   \<and> CHR 0x0A \<notin> set (remainder s)"
  using split_lines_join[of "[]" s] split_lines_fst_no_delimiter[of "[]" s]
  by (simp add: complete_lines_def remainder_def split_lines_snd_no_delimiter)

lemma nth_promises_fire_WriteCallback:
  assumes "p < length (promises w)" "promises w ! p = (op, Pending)" "p \<in> set (write_callbacks w)"
  shows "promises (fire parse (WriteCallback p err) w) ! p = (op, Resolved)"
  using assms by (simp add: resolve_def settle_def)

lemma pending_send_step:
  assumes inv: "promise_inv w" and p: "p < length (promises w)"
    and pend: "promises w ! p = (OpSend, Pending)"
  shows "p \<in> set (write_callbacks w) \<and>
    promises (fire parse e w) ! p =
      (if \<exists>err. e = WriteCallback p err then (OpSend, Resolved) else (OpSend, Pending))"
proof -
  from inv p pend have wc: "p \<in> set (write_callbacks w)" by (simp add: promise_inv_def)
  have "promises (fire parse e w) ! p =
      (if \<exists>err. e = WriteCallback p err then (OpSend, Resolved) else (OpSend, Pending))"
  proof (cases "\<exists>err. e = WriteCallback p err")
    case True
    then obtain err where "e = WriteCallback p err" by blast
    with nth_promises_fire_WriteCallback[OF p pend wc, of parse err] show ?thesis by simp
  next
    case nw: False
    show ?thesis
    proof (cases "e = RunImmediate")
      case False
      with nw nth_promises_fire[OF p, of e parse] pend show ?thesis by simp
    next
      case True
      show ?thesis
      proof (cases "immediates w")
        case Nil
        with True nw pend show ?thesis by simp
      next
        case (Cons n rest)
        have "promise_inv (w\<lparr>immediates := rest\<rparr>)" using inv by (simp add: promise_inv_def)
        from nth_promises_emit[OF this, of p n] p pend
        have "promises (emit n (w\<lparr>immediates := rest\<rparr>)) ! p = (OpSend, Pending)" by simp
        with True Cons show ?thesis by simp
      qed
    qed
  qed
  with wc show ?thesis by simp
qed

lemma pending_disconnect_step:
  assumes inv: "promise_inv w" and p: "p < length (promises w)"
    and pend: "promises w ! p = (OpDisconnect, Pending)"
  shows "promises (fire parse e w) ! p =
      (if e = RunImmediate \<and> (\<exists>err rest. immediates w = Disconnected err # rest)
       then (OpDisconnect, Resolved) else (OpDisconnect, Pending))"
proof (cases "e = RunImmediate")
  case True
  show ?thesis
  proof (cases "immediates w")
    case Nil
    with True pend show ?thesis by simp
  next
    case (Cons n rest)
    have inv': "promise_inv (w\<lparr>immediates := rest\<rparr>)" using inv by (simp add: promise_inv_def)
    show ?thesis
    proof (cases "\<exists>err. n = Disconnected err")
      case True
      then obtain err where n: "n = Disconnected err" by blast
      from emit_Disconnected_resolves[OF inv', of p err] p pend
      have "promises (emit (Disconnected err) (w\<lparr>immediates := rest\<rparr>)) ! p = (OpDisconnect, Resolved)"
        by simp
      with \<open>e = RunImmediate\<close> Cons n show ?thesis by simp
    next
      case False
      then have "event_of n \<noteq> EvDisconnected" by (cases n) simp_all
      with nth_promises_emit[OF inv', of p n] p pend
      have "promises (emit n (w\<lparr>immediates := rest\<rparr>)) ! p = (OpDisconnect, Pending)" by simp
      with \<open>e = RunImmediate\<close> Cons False show ?thesis by simp
    qed
  qed
next
  case False
  show ?thesis
  proof (cases "\<exists>err. e = WriteCallback p err")
    case True
    from inv p pend have "p \<notin> set (write_callbacks w)" by (auto simp: promise_inv_def)
    with True pend show ?thesis by auto
  next
    case nw: False
    with False nth_promises_fire[OF p, of e parse] pend show ?thesis by simp
  qed
qed

lemma reachable_immediate_example: "reachable parse (fire parse RunImmediate connected_example)"
proof -
  have "immediates connected_example \<noteq> []" by code_simp
  then show ?thesis by (intro reachable_fire reachable_connected_example) simp
qed

lemma fire_RunImmediate_parse: "fire parse RunImmediate w = fire parse' RunImmediate w"
  by simp

lemma reachable_disconnecting_example: "reachable parse disconnecting_example"
  using reachable_fire[OF reachable_immediate_example, of CallDisconnect parse]
  by (simp add: disconnecting_example_def fire_RunImmediate_parse[of parse _ JSON_parse])

lemma reachable_closed_example: "reachable parse closed_example"
proof -
  have "socket (tdata disconnecting_example) \<noteq> None" by code_simp
  with reachable_fire[OF reachable_disconnecting_example, of Close parse]
  show ?thesis by (simp add: closed_example_def)
qed

subsection \<open>Runs of events\<close>

lemma exec_Cons: "exec parse (e # es) w = exec parse es (fire parse e w)"
  by (simp add: exec_def)

lemma exec_Nil: "exec parse [] w = w"
  by (simp add: exec_def)

lemma filter_notification_for: "filter is_Disconnected (notification_for parse line) = []"
  by (simp add: notification_for_def is_Disconnected_def split: sum.splits)

lemma filter_notifications: "filter is_Disconnected (concat (map (notification_for parse) ls)) = []"
  by (induction ls) (simp_all add: filter_notification_for)

lemma emitted_immediates_fire:
  assumes "e \<noteq> Close" "e \<noteq> SecureConnect" "\<forall>chunk. e \<noteq> SocketData chunk"
  shows "emitted (fire parse e w) @ immediates (fire parse e w) = emitted w @ immediates w"
proof (cases e)
  case RunImmediate
  show ?thesis
    by (cases "immediates w") (simp_all add: RunImmediate emitted_emit immediates_emit)
qed (use assms in \<open>auto simp: connect_def disconnect_def send_def Let_def new_promise_def once_def
      createSocket_def socket_call_def setTimeout_def onSocketTimeout_def onSocketError_def
      resolve_def clearTimeout_def split: option.splits list.splits\<close>)

lemma disconnections_fire:
  assumes "e \<noteq> Close"
  shows "disconnections (fire parse e w) = disconnections w"
proof (cases "e = SecureConnect \<or> (\<exists>chunk. e = SocketData chunk)")
  case False
  with assms emitted_immediates_fire[of e parse w] show ?thesis
    by (simp add: disconnections_def)
next
  case True
  then show ?thesis
  proof
    assume "e = SecureConnect"
    then show ?thesis
      by (simp add: disconnections_def onSocketSecureConnect_def setImmediate_def
          is_Disconnected_def)
  next
    assume "\<exists>chunk. e = SocketData chunk"
    then show ?thesis
      by (auto simp: disconnections_def onSocketData_eq filter_notifications)
  qed
qed

lemma tdata_fire_other:
  assumes "e \<noteq> SecureConnect" "e \<noteq> Close" "e \<noteq> Timeout" "\<forall>err. e \<noteq> SocketError err"
    "\<forall>chunk. e \<noteq> SocketData chunk" "e \<noteq> CallConnect"
  shows "tdata (fire parse e w) = tdata w"
  using assms
  by (cases e)
    (simp_all add: tdata_disconnect tdata_send tdata_emit resolve_def socket_call_def
      clearTimeout_def split: list.splits)

lemma error_fire:
  assumes "e \<noteq> SecureConnect" "e \<noteq> Close" "\<forall>err. e \<noteq> SocketError err"
    and "error (tdata w) = Some (JsError Error ''Connection timed out'')"
  shows "error (tdata (fire parse e w)) = Some (JsError Error ''Connection timed out'')"
proof (cases "e = Timeout \<or> (\<exists>chunk. e = SocketData chunk) \<or> e = CallConnect")
  case False
  with assms tdata_fire_other[of e parse w] show ?thesis by simp
next
  case True
  with assms(4) show ?thesis
    by (auto simp: onSocketTimeout_def tdata_disconnect onSocketData_eq tdata_connect
        split: option.splits)
qed

lemma buffer_fire:
  assumes "\<forall>chunk. e \<noteq> SocketData chunk"
  shows "buffer (tdata (fire parse e w)) = buffer (tdata w)"
proof (cases "e = SecureConnect \<or> e = Close \<or> e = Timeout \<or> (\<exists>err. e = SocketError err) \<or> e = CallConnect")
  case False
  with assms tdata_fire_other[of e parse w] show ?thesis by simp
next
  case True
  then show ?thesis
    by (auto simp: onSocketTimeout_def tdata_disconnect tdata_connect onSocketSecureConnect_def
        onSocketClose_def onSocketError_def setImmediate_def split: option.splits)
qed

lemma exec_benign:
  assumes "\<forall>e \<in> set es. e \<noteq> SecureConnect \<and> e \<noteq> Close \<and> (\<forall>err. e \<noteq> SocketError err)"
    and "error (tdata w) = Some (JsError Error ''Connection timed out'')"
  shows "error (tdata (exec parse es w)) = Some (JsError Error ''Connection timed out'')
    \<and> disconnections (exec parse es w) = disconnections w"
  using assms
proof (induction es arbitrary: w)
  case Nil
  then show ?case by (simp add: exec_Nil)
next
  case (Cons e es)
  from Cons.prems have e: "e \<noteq> SecureConnect" "e \<noteq> Close" "\<forall>err. e \<noteq> SocketError err"
    and es: "\<forall>e \<in> set es. e \<noteq> SecureConnect \<and> e \<noteq> Close \<and> (\<forall>err. e \<noteq> SocketError err)"
    by simp_all
  from error_fire[OF e Cons.prems(2)]
  have "error (tdata (fire parse e w)) = Some (JsError Error ''Connection timed out'')" .
  from Cons.IH[OF es this] disconnections_fire[OF e(2), of parse w] show ?case
    by (simp add: exec_Cons)
qed

lemma exec_buffer:
  assumes "\<forall>e \<in> set es. \<forall>chunk. e \<noteq> SocketData chunk"
  shows "buffer (tdata (exec parse es w)) = buffer (tdata w)"
  using assms
proof (induction es arbitrary: w)
  case Nil
  then show ?case by (simp add: exec_Nil)
next
  case (Cons e es)
  then show ?case by (simp add: exec_Cons buffer_fire)
qed

lemma socket_emitted_example: "socket (tdata emitted_example) = Some 0"
  by code_simp

lemma reachable_errored_example: "reachable parse errored_example"
  using reachable_fire[OF reachable_connecting_example, of "SocketError (JsError Error ''read ECONNRESET'')" parse]
  by (simp add: errored_example_def socket_connecting_example)

lemma exec_disconnections:
  assumes "\<forall>e \<in> set es. e \<noteq> Close"
  shows "disconnections (exec parse es w) = disconnections w"
  using assms
proof (induction es arbitrary: w)
  case Nil
  then show ?case by (simp add: exec_Nil)
next
  case (Cons e es)
  then show ?case by (simp add: exec_Cons disconnections_fire)
qed

lemma reachable_exec:
  "reachable parse w \<Longrightarrow> admissible parse es w \<Longrightarrow> reachable parse (exec parse es w)"
proof (induction es arbitrary: w)
  case Nil
  then show ?case by (simp add: exec_Nil)
next
  case (Cons e es)
  from Cons.prems have "enabled e w" "admissible parse es (fire parse e w)" by simp_all
  with Cons.IH[of "fire parse e w"] reachable_fire[OF Cons.prems(1), of e] show ?case
    by (simp add: exec_Cons)
qed

lemma reachable_emitted_example: "reachable JSON_parse emitted_example"
  unfolding emitted_example_def by (rule reachable_immediate_example)

subsection \<open>What the methods and the timeout do\<close>

lemma send_connected:
  assumes "data_inv w" "connected (tdata w)" "payload \<noteq> []"
  shows "\<exists>s. socket (tdata w) = Some s \<and>
    send (JString payload) w =
      w\<lparr>promises := promises w @ [(OpSend, Pending)],
        calls := calls w @ [SocketWrite s (payload @ [CHR 0x0A]) ''utf8'' (length (promises w))],
        write_callbacks := write_callbacks w @ [length (promises w)]\<rparr>"
proof -
  from assms(1,2) obtain s where s: "socket (tdata w) = Some s" by (auto simp: data_inv_def)
  with assms(2,3) have "send (JString payload) w =
      w\<lparr>promises := promises w @ [(OpSend, Pending)],
        calls := calls w @ [SocketWrite s (payload @ [CHR 0x0A]) ''utf8'' (length (promises w))],
        write_callbacks := write_callbacks w @ [length (promises w)]\<rparr>"
    by (simp add: send_def Let_def new_promise_def socket_call_def check_nonEmptyString_def
        check_string_def)
  with s show ?thesis by blast
qed

lemma disconnect_without_handle:
  "socket (tdata w) = None \<Longrightarrow>
     disconnect w = w\<lparr>promises := promises w @ [(OpDisconnect, Resolved)]\<rparr>"
  by (simp add: disconnect_def new_promise_def)

lemma disconnect_with_handle:
  "socket (tdata w) = Some s \<Longrightarrow>
     disconnect w =
       w\<lparr>promises := promises w @ [(OpDisconnect, Pending)],
         timers := timers w @ [(next_timer w, 5000, s)],
         next_timer := Suc (next_timer w),
         listeners := listeners w @
           [(EvDisconnected, DisconnectOnDisconnected (length (promises w)) (next_timer w))],
         calls := calls w @ [SocketEnd s]\<rparr>"
  by (simp add: disconnect_def Let_def new_promise_def setTimeout_def once_def socket_call_def)

lemma timer_expiry:
  assumes "timer_inv w" "(t, d, s) \<in> set (timers w)"
  shows "d = 5000 \<and>
    fire parse (TimerExpires t) w =
      w\<lparr>timers := filter (\<lambda>(t', _). t' \<noteq> t) (timers w), calls := calls w @ [SocketDestroy s]\<rparr>"
proof -
  from assms have "d = 5000" by (force simp: timer_inv_def)
  moreover from timer_lookup[OF assms]
  have "fire parse (TimerExpires t) w =
      w\<lparr>timers := filter (\<lambda>(t', _). t' \<noteq> t) (timers w), calls := calls w @ [SocketDestroy s]\<rparr>"
    by (simp add: socket_call_def clearTimeout_def)
  ultimately show ?thesis by simp
qed

subsection \<open>The constructor\<close>

lemma map_of_rev_distinct: "distinct (map fst al) \<Longrightarrow> map_of (rev al) = map_of al"
proof (induction al)
  case Nil
  show ?case by simp
next
  case (Cons x al)
  obtain k v where x: "x = (k, v)" by (cases x)
  from Cons.prems x have nk: "k \<notin> fst ` set al" by simp
  then have "map_of al k = None" by (simp add: map_of_eq_None_iff)
  with Cons x show ?case
    by (auto simp: fun_eq_iff map_add_def split: option.splits)
qed

lemma map_of_Set_property:
  "k \<noteq> ''__proto__'' \<Longrightarrow>
     map_of (properties (Set_property k' v obj)) k = (map_of (properties obj) ++ [k' \<mapsto> v]) k"
  by (simp add: Set_property_def proto_setter_def update_conv' map_add_def)

lemma distinct_Set_property:
  "distinct (map fst (properties obj)) \<Longrightarrow> distinct (map fst (properties (Set_property k v obj)))"
  by (simp add: Set_property_def proto_setter_def distinct_update)

lemma map_of_foldl_Set:
  "k \<noteq> ''__proto__'' \<Longrightarrow>
     map_of (properties (foldl (\<lambda>t (k, v). Set_property k v t) obj ps)) k
       = (map_of (properties obj) ++ map_of (rev ps)) k"
proof (induction ps arbitrary: obj)
  case Nil
  show ?case by simp
next
  case (Cons x ps)
  obtain k' v where x: "x = (k', v)" by (cases x)
  have "map_of (properties (foldl (\<lambda>t (k, v). Set_property k v t) obj (x # ps))) k
      = (map_of (properties (Set_property k' v obj)) ++ map_of (rev ps)) k"
    using Cons.IH[OF Cons.prems, of "Set_property k' v obj"] by (simp add: x)
  also have "\<dots> = (map_of (properties obj) ++ map_of (rev (x # ps))) k"
    using map_of_Set_property[OF Cons.prems, of k' v obj]
    by (simp add: x map_add_def split: option.splits)
  finally show ?case .
qed

lemma distinct_foldl_Set:
  "distinct (map fst (properties obj)) \<Longrightarrow>
     distinct (map fst (properties (foldl (\<lambda>t (k, v). Set_property k v t) obj ps)))"
  by (induction ps arbitrary: obj) (auto simp: distinct_Set_property)

lemma foldl_Set_no_proto:
  "''__proto__'' \<notin> fst ` set ps \<Longrightarrow>
     prototype (foldl (\<lambda>t (k, v). Set_property k v t) obj ps) = prototype obj \<and>
     (''__proto__'' \<in> fst ` set (properties (foldl (\<lambda>t (k, v). Set_property k v t) obj ps))
        \<longleftrightarrow> ''__proto__'' \<in> fst ` set (properties obj))"
proof (induction ps arbitrary: obj)
  case Nil
  show ?case by simp
next
  case (Cons x ps)
  obtain k' v where x: "x = (k', v)" by (cases x)
  from Cons.prems x have k': "k' \<noteq> ''__proto__''" and ps: "''__proto__'' \<notin> fst ` set ps"
    by auto
  from k' have s: "Set_property k' v obj = obj\<lparr>properties := AList.update k' v (properties obj)\<rparr>"
    by (simp add: Set_property_def)
  from Cons.IH[OF ps, of "Set_property k' v obj"] k' show ?case
    by (simp add: x s dom_update)
qed

lemma foldl_Set_proto:
  assumes "distinct (map fst ps)" "''__proto__'' \<notin> fst ` set (properties obj)"
    "inherits_proto_accessor (prototype obj)"
  shows "''__proto__'' \<notin> fst ` set (properties (foldl (\<lambda>t (k, v). Set_property k v t) obj ps)) \<and>
    prototype (foldl (\<lambda>t (k, v). Set_property k v t) obj ps) =
      (case map_of ps ''__proto__'' of
         Some v \<Rightarrow> if object_or_null v then Installed v else prototype obj
       | None \<Rightarrow> prototype obj)"
  using assms
proof (induction ps arbitrary: obj)
  case Nil
  then show ?case by simp
next
  case (Cons x ps)
  obtain k' v where x: "x = (k', v)" by (cases x)
  from Cons.prems(1) x have dist: "distinct (map fst ps)" and fresh: "k' \<notin> fst ` set ps"
    by simp_all
  show ?case
  proof (cases "k' = ''__proto__''")
    case True
    with Cons.prems have s: "Set_property ''__proto__'' v obj = proto_setter v obj"
      by (simp add: Set_property_def)
    have pr: "prototype (proto_setter v obj) = (if object_or_null v then Installed v else prototype obj)"
      "properties (proto_setter v obj) = properties obj"
      by (simp_all add: proto_setter_def)
    from True fresh have "''__proto__'' \<notin> fst ` set ps" by simp
    from foldl_Set_no_proto[OF this, of "proto_setter v obj"] Cons.prems(2) True show ?thesis
      by (simp add: x s pr)
  next
    case False
    then have s: "Set_property k' v obj = obj\<lparr>properties := AList.update k' v (properties obj)\<rparr>"
      by (simp add: Set_property_def)
    have "''__proto__'' \<notin> fst ` set (properties (Set_property k' v obj))"
      using Cons.prems(2) False by (simp add: s dom_update)
    moreover have "inherits_proto_accessor (prototype (Set_property k' v obj))"
      using Cons.prems(3) by (simp add: s)
    ultimately show ?thesis
      using Cons.IH[OF dist, of "Set_property k' v obj"] False
      by (simp add: x s split: option.splits)
  qed
qed

lemma Object_assign2:
  "Object_assign obj [extra, JObject ps] =
     foldl (\<lambda>t (k, v). Set_property k v t)
       (case extra of
          JObject es \<Rightarrow> foldl (\<lambda>t (k, v). Set_property k v t) obj es
        | _ \<Rightarrow> obj)
       ps"
  by (simp add: Object_assign_def)

lemma own_property_Object_assign2:
  assumes "k \<noteq> ''__proto__''"
  shows "own_property (Object_assign (plain_object [(d, dv)]) [extra, JObject ps]) k =
     (case property_of ps k of
        Some v \<Rightarrow> Some v
      | None \<Rightarrow>
          (case extra_property extra k of
             Some v \<Rightarrow> Some v
           | None \<Rightarrow> if k = d then Some dv else None))"
proof -
  let ?set = "\<lambda>t (k, v). Set_property k v t"
  let ?t = "(case extra of JObject es \<Rightarrow> foldl ?set (plain_object [(d, dv)]) es
            | _ \<Rightarrow> plain_object [(d, dv)])"
  have dt: "distinct (map fst (properties ?t))"
    by (cases extra) (simp_all add: distinct_foldl_Set plain_object_def)
  have mt: "map_of (properties ?t) k =
      (map_of [(d, dv)] ++ (case extra of JObject es \<Rightarrow> map_of (rev es) | _ \<Rightarrow> Map.empty)) k"
    by (cases extra) (simp_all add: map_of_foldl_Set[OF assms] plain_object_def)
  have "own_property (Object_assign (plain_object [(d, dv)]) [extra, JObject ps]) k
      = (map_of (properties ?t) ++ map_of (rev ps)) k"
    unfolding own_property_def property_of_def Object_assign2
    by (simp only: map_of_rev_distinct[OF distinct_foldl_Set[OF dt]] map_of_foldl_Set[OF assms])
  then show ?thesis
    using mt
    by (cases extra) (auto simp: property_of_def extra_property_def map_add_def split: option.splits)
qed

lemma prototype_Object_assign2:
  assumes "unique_keys extra" "''__proto__'' \<notin> fst ` set ps" "d \<noteq> ''__proto__''"
  shows "own_property (Object_assign (plain_object [(d, dv)]) [extra, JObject ps]) ''__proto__'' = None \<and>
    prototype (Object_assign (plain_object [(d, dv)]) [extra, JObject ps]) =
      (case extra_property extra ''__proto__'' of
         Some v \<Rightarrow> if object_or_null v then Installed v else Object_prototype
       | None \<Rightarrow> Object_prototype)"
proof -
  let ?set = "\<lambda>t (k, v). Set_property k v t"
  let ?t = "(case extra of JObject es \<Rightarrow> foldl ?set (plain_object [(d, dv)]) es
            | _ \<Rightarrow> plain_object [(d, dv)])"
  have t: "''__proto__'' \<notin> fst ` set (properties ?t) \<and>
      prototype ?t =
        (case extra_property extra ''__proto__'' of
           Some v \<Rightarrow> if object_or_null v then Installed v else Object_prototype
         | None \<Rightarrow> Object_prototype)"
  proof (cases extra)
    case (JObject es)
    with assms(1) have dist: "distinct (map fst es)" by (simp add: unique_keys_def)
    from foldl_Set_proto[OF dist, of "plain_object [(d, dv)]"] assms(3) show ?thesis
      by (simp add: JObject plain_object_def inherits_proto_accessor_def extra_property_def
          property_of_def map_of_rev_distinct[OF dist] split: option.splits)
  qed (use assms(3) in \<open>simp_all add: plain_object_def extra_property_def\<close>)
  from foldl_Set_no_proto[OF assms(2), of ?t] t
  have "''__proto__'' \<notin> fst ` set (properties (foldl ?set ?t ps))"
    and p: "prototype (foldl ?set ?t ps) =
        (case extra_property extra ''__proto__'' of
           Some v \<Rightarrow> if object_or_null v then Installed v else Object_prototype
         | None \<Rightarrow> Object_prototype)"
    by simp_all
  then have "map_of (rev (properties (foldl ?set ?t ps))) ''__proto__'' = None"
    by (simp add: map_of_eq_None_iff)
  with p show ?thesis
    unfolding own_property_def property_of_def Object_assign2 by simp
qed

lemma check_inRange_port_iff:
  "check_inRange port 1 65535 \<longleftrightarrow> (\<exists>q. port = JNumber (Finite q) \<and> 1 \<le> q \<and> q \<le> 65535)"
proof (cases port)
  case (JNumber n)
  then show ?thesis
    by (cases n)
      (auto simp: check_inRange_def check_greaterOrEqual_def check_lessOrEqual_def check_number_def)
qed (simp_all add: check_inRange_def check_greaterOrEqual_def check_lessOrEqual_def check_number_def)

lemma check_maybe_object_iff:
  "check_maybe check_object extra \<longleftrightarrow>
     extra = JUndefined \<or> extra = JNull \<or> (\<exists>ps. extra = JObject ps)"
  by (cases extra) (simp_all add: check_maybe_def check_object_def)

lemma TLSTransport_eq:
  "TLSTransport host port extra =
     (if \<not> check_nonEmptyString host then Inl (JsError TypeError ''missing/invalid \"host\" option'')
      else if \<not> check_inRange port 1 65535 then Inl (JsError TypeError ''missing/invalid \"port\" option'')
      else if \<not> check_maybe check_object extra then Inl (JsError TypeError ''invalid \"extra\" option'')
      else Inr (initial
                 (Object_assign (plain_object [(''rejectUnauthorized'', JBoolean True)])
                    [extra,
                     JObject [(''host'', host), (''port'', port),
                              (''path'', JUndefined), (''socket'', JUndefined)]])))"
  by (simp add: TLSTransport_def check_assert_def)

section \<open>Claims\<close>

text \<open>
  C1 (as the code has it). Let the inbound buffer hold no line feed, as it does on a new
  transport and after every run of \<^verbatim>\<open>onSocketData\<close>, and let the concatenation of the
  chunks contain K line feeds. Then the buffered text followed by the chunks has K
  complete lines, and processing the chunks schedules, whatever the chunk boundaries
  and in the order of the lines, one error notification for each line on which the
  parser throws, one data notification carrying the parsed value for each line that
  parses to a value that is true in a condition, and nothing for a line that parses to
  \<^verbatim>\<open>null\<close>, \<^verbatim>\<open>false\<close>, \<^verbatim>\<open>0\<close> or \<^verbatim>\<open>""\<close>. So the number of notifications is K less the
  number of such lines, a failure on one line leaves the later lines alone, running
  the scheduled callbacks emits the notifications in that order, and the buffer keeps
  the text after the last line feed.
\<close>

theorem C1_notifications_per_line:
  assumes "CHR 0x0A \<notin> set (inboundBuffer w)"
  shows "length (complete_lines (inboundBuffer w @ concat chunks)) = count_list (concat chunks) (CHR 0x0A)
    \<and> immediates (receive parse chunks w) =
        immediates w @
          concat (map (notification_for parse) (complete_lines (inboundBuffer w @ concat chunks)))
    \<and> length (concat (map (notification_for parse) (complete_lines (inboundBuffer w @ concat chunks)))) =
        length (filter (\<lambda>line. \<not> dropped parse line)
                  (complete_lines (inboundBuffer w @ concat chunks)))
    \<and> emitted (flush parse (receive parse chunks w)) =
        emitted (receive parse chunks w) @ immediates (receive parse chunks w)
    \<and> inboundBuffer (receive parse chunks w) = remainder (inboundBuffer w @ concat chunks)"
proof -
  have "count_list (inboundBuffer w @ concat chunks) (CHR 0x0A) = count_list (concat chunks) (CHR 0x0A)"
    using assms by (simp add: count_list_no_delimiter)
  then have k: "length (complete_lines (inboundBuffer w @ concat chunks))
      = count_list (concat chunks) (CHR 0x0A)"
    by (simp only: length_complete_lines)
  from receive_eq[OF assms, of parse chunks] k length_notifications flush_eq
  show ?thesis by blast
qed

theorem C1_notifications_per_line_witness:
  "CHR 0x0A \<notin> set (inboundBuffer emitted_example)
   \<and> count_list (concat [''{\"a\":[tr'',
         ''ue,null]}'' @ [CHR 0x0A] @ ''oops'' @ [CHR 0x0A] @ ''null'' @ [CHR 0x0A] @ ''[]'' @ [CHR 0x0A] @ ''{\"par''])
        (CHR 0x0A) = 4
   \<and> immediates (receive JSON_parse [''{\"a\":[tr'',
         ''ue,null]}'' @ [CHR 0x0A] @ ''oops'' @ [CHR 0x0A] @ ''null'' @ [CHR 0x0A] @ ''[]'' @ [CHR 0x0A] @ ''{\"par'']
        emitted_example)
      = [Data (JObject [(''a'', JArray [JBoolean True, JNull])]),
         ErrorEvent (JsError SyntaxError ''Unexpected token in JSON''),
         Data (JArray [])]
   \<and> inboundBuffer (receive JSON_parse [''{\"a\":[tr'',
         ''ue,null]}'' @ [CHR 0x0A] @ ''oops'' @ [CHR 0x0A] @ ''null'' @ [CHR 0x0A] @ ''[]'' @ [CHR 0x0A] @ ''{\"par'']
        emitted_example) = ''{\"par''"
proof -
  let ?chunks = "[''{\"a\":[tr'',
         ''ue,null]}'' @ [CHR 0x0A] @ ''oops'' @ [CHR 0x0A] @ ''null'' @ [CHR 0x0A] @ ''[]'' @ [CHR 0x0A] @ ''{\"par'']"
  have h: "CHR 0x0A \<notin> set (inboundBuffer emitted_example)" by code_simp
  have im: "immediates emitted_example = []" by code_simp
  have k: "count_list (concat ?chunks) (CHR 0x0A) = 4" by code_simp
  have ls: "complete_lines (inboundBuffer emitted_example @ concat ?chunks)
      = [''{\"a\":[true,null]}'', ''oops'', ''null'', ''[]'']" by code_simp
  have r: "remainder (inboundBuffer emitted_example @ concat ?chunks) = ''{\"par''" by code_simp
  have n1: "notification_for JSON_parse ''{\"a\":[true,null]}''
      = [Data (JObject [(''a'', JArray [JBoolean True, JNull])])]" by code_simp
  have n2: "notification_for JSON_parse ''oops''
      = [ErrorEvent (JsError SyntaxError ''Unexpected token in JSON'')]" by code_simp
  have n3: "notification_for JSON_parse ''null'' = []" by code_simp
  have n4: "notification_for JSON_parse ''[]'' = [Data (JArray [])]" by code_simp
  from C1_notifications_per_line[OF h, of ?chunks JSON_parse]
  have "immediates (receive JSON_parse ?chunks emitted_example) =
      immediates emitted_example @
        concat (map (notification_for JSON_parse)
          (complete_lines (inboundBuffer emitted_example @ concat ?chunks)))"
    and "inboundBuffer (receive JSON_parse ?chunks emitted_example)
      = remainder (inboundBuffer emitted_example @ concat ?chunks)"
    by blast+
  then show ?thesis
    unfolding ls r im using h k by (simp add: n1 n2 n3 n4)
qed

text \<open>
  C1 as stated fails on a line that holds a JSON value which is false in a condition.
  The connected example transport receives the chunk \<^verbatim>\<open>null\n\<close>: it holds one
  complete line, the line parses as JSON, and \<^verbatim>\<open>if (message)\<close> schedules no
  notification for it.
\<close>

theorem C1_counterexample:
  "JSON_parse ''null'' = Inr JNull
   \<and> count_list (concat [''null'' @ [CHR 0x0A]]) (CHR 0x0A) = 1
   \<and> emitted emitted_example = [Connected]
   \<and> immediates emitted_example = []
   \<and> immediates (receive JSON_parse [''null'' @ [CHR 0x0A]] emitted_example) = []
   \<and> emitted (flush JSON_parse (receive JSON_parse [''null'' @ [CHR 0x0A]] emitted_example))
       = [Connected]
   \<and> length (immediates (receive JSON_parse [''null'' @ [CHR 0x0A]] emitted_example))
       \<noteq> count_list (concat [''null'' @ [CHR 0x0A]]) (CHR 0x0A)"
  by code_simp

text \<open>
  C2. When a handle exists, \<^verbatim>\<open>connect\<close> only returns a promise: resolved if
  \<open>connected\<close> is true, rejected with \<^verbatim>\<open>Error('Connection already in progress')\<close>
  if it is false. The transport's data, the calls made on the TLS module (so no second
  handle is created), the socket counter and the listeners are unchanged.
\<close>

theorem C2_connect_with_handle:
  assumes "socket (tdata w) \<noteq> None"
  shows "(connected (tdata w) \<longrightarrow>
            connect w = w\<lparr>promises := promises w @ [(OpConnect, Resolved)]\<rparr>)
    \<and> (\<not> connected (tdata w) \<longrightarrow>
            connect w = w\<lparr>promises := promises w @
              [(OpConnect, Rejected (JsError Error ''Connection already in progress''))]\<rparr>)
    \<and> tdata (connect w) = tdata w
    \<and> calls (connect w) = calls w
    \<and> next_socket (connect w) = next_socket w
    \<and> listeners (connect w) = listeners w"
  using assms by (auto simp: connect_def new_promise_def)

theorem C2_connect_with_handle_witness:
  "socket (tdata connecting_example) \<noteq> None
   \<and> \<not> connected (tdata connecting_example)
   \<and> promises (connect connecting_example) =
       [(OpConnect, Pending), (OpConnect, Rejected (JsError Error ''Connection already in progress''))]
   \<and> calls (connect connecting_example) = calls connecting_example
   \<and> socket (tdata connected_example) \<noteq> None
   \<and> connected (tdata connected_example)
   \<and> promises (connect connected_example) = [(OpConnect, Pending), (OpConnect, Resolved)]
   \<and> calls (connect connected_example) = calls connected_example"
proof -
  have s1: "socket (tdata connecting_example) \<noteq> None" by code_simp
  have c1: "\<not> connected (tdata connecting_example)" by code_simp
  have p1: "promises connecting_example = [(OpConnect, Pending)]" by code_simp
  have s2: "socket (tdata connected_example) \<noteq> None" by code_simp
  have c2: "connected (tdata connected_example)" by code_simp
  have p2: "promises connected_example = [(OpConnect, Pending)]" by code_simp
  from C2_connect_with_handle[OF s1] c1 p1 C2_connect_with_handle[OF s2] c2 p2 s1 s2
  show ?thesis by simp
qed

text \<open>
  C3. In every reachable state, \<^verbatim>\<open>send(d)\<close> rejects with a TypeError exactly when
  \<open>d\<close> is not a non-empty string (missing, empty, or of another type); when \<open>d\<close> is
  a non-empty string and \<open>connected\<close> is false it rejects with the DisconnectedError
  \<^verbatim>\<open>'Transport not connected'\<close>, an error of another name; and whenever the promise
  is rejected nothing but the list of promises changes: no call on the socket, no
  pending write, the same data, listeners, timers and scheduled callbacks.
\<close>

theorem C3_send_rejections:
  assumes "reachable parse w"
  shows "((\<exists>message. promises (send d w) = promises w @ [(OpSend, Rejected (JsError TypeError message))])
            \<longleftrightarrow> \<not> (\<exists>text. d = JString text \<and> text \<noteq> []))
    \<and> (\<not> (\<exists>text. d = JString text \<and> text \<noteq> []) \<longrightarrow>
          send d w = w\<lparr>promises := promises w @
            [(OpSend, Rejected (JsError TypeError ''missing/invalid \"data\" parameter''))]\<rparr>)
    \<and> ((\<exists>text. d = JString text \<and> text \<noteq> []) \<and> \<not> connected (tdata w) \<longrightarrow>
          send d w = w\<lparr>promises := promises w @
            [(OpSend, Rejected (JsError DisconnectedError ''Transport not connected''))]\<rparr>)
    \<and> (\<forall>e. promises (send d w) = promises w @ [(OpSend, Rejected e)] \<longrightarrow>
          calls (send d w) = calls w \<and> write_callbacks (send d w) = write_callbacks w
          \<and> tdata (send d w) = tdata w \<and> listeners (send d w) = listeners w
          \<and> timers (send d w) = timers w \<and> immediates (send d w) = immediates w)"
proof -
  from reachable_invariants[OF assms] have sock: "connected (tdata w) \<longrightarrow> socket (tdata w) \<noteq> None"
    by (simp add: data_inv_def)
  show ?thesis
  proof (cases "check_nonEmptyString d")
    case False
    then show ?thesis
      by (simp add: send_def new_promise_def check_nonEmptyString_iff)
  next
    case valid: True
    show ?thesis
    proof (cases "connected (tdata w)")
      case False
      with valid show ?thesis
        by (simp add: send_def new_promise_def check_nonEmptyString_iff[symmetric])
    next
      case True
      with sock obtain s where "socket (tdata w) = Some s" by auto
      with valid True show ?thesis
        by (simp add: send_def new_promise_def socket_call_def Let_def
            check_nonEmptyString_iff[symmetric])
    qed
  qed
qed

theorem C3_send_rejections_witness:
  "promises (send JUndefined example_transport) =
      [(OpSend, Rejected (JsError TypeError ''missing/invalid \"data\" parameter''))]
   \<and> promises (send (JString []) example_transport) =
      [(OpSend, Rejected (JsError TypeError ''missing/invalid \"data\" parameter''))]
   \<and> promises (send (JNumber (Finite 7)) example_transport) =
      [(OpSend, Rejected (JsError TypeError ''missing/invalid \"data\" parameter''))]
   \<and> promises (send (JString ''{}'') example_transport) =
      [(OpSend, Rejected (JsError DisconnectedError ''Transport not connected''))]
   \<and> calls (send (JString ''{}'') example_transport) = calls example_transport
   \<and> calls (send JUndefined example_transport) = []"
proof -
  have p: "promises example_transport = []" and c: "calls example_transport = []"
    and n: "\<not> connected (tdata example_transport)"
    by (simp_all add: example_transport_def initial_def)
  note inst = C3_send_rejections[OF reachable_example[of JSON_parse]]
  have a: "send JUndefined example_transport = example_transport\<lparr>promises := promises example_transport @
            [(OpSend, Rejected (JsError TypeError ''missing/invalid \"data\" parameter''))]\<rparr>"
    using inst[of JUndefined] by simp
  have b: "send (JString []) example_transport = example_transport\<lparr>promises := promises example_transport @
            [(OpSend, Rejected (JsError TypeError ''missing/invalid \"data\" parameter''))]\<rparr>"
    using inst[of "JString []"] by simp
  have c': "send (JNumber (Finite 7)) example_transport = example_transport\<lparr>promises := promises example_transport @
            [(OpSend, Rejected (JsError TypeError ''missing/invalid \"data\" parameter''))]\<rparr>"
    using inst[of "JNumber (Finite 7)"] by simp
  have d: "send (JString ''{}'') example_transport = example_transport\<lparr>promises := promises example_transport @
            [(OpSend, Rejected (JsError DisconnectedError ''Transport not connected''))]\<rparr>"
    using inst[of "JString ''{}''"] n by simp
  show ?thesis by (simp add: a b c' d p c)
qed

text \<open>
  C4 (the promise of \<^verbatim>\<open>send\<close> and a write that fails). The framing is as the claim
  says: \<open>send_connected\<close>, \<open>pending_send_step\<close>, \<open>immediates_onSocketData\<close>,
  \<open>inboundBuffer_onSocketData\<close> and \<open>complete_lines_exact\<close> above. The promise is
  another matter. The documentation of \<^verbatim>\<open>send\<close> says that it \<^verbatim>\<open>Resolves after the data
  has been sent\<close>, and the callback that \<^verbatim>\<open>send\<close> passes to \<^verbatim>\<open>socket.write\<close> resolves
  the promise whatever it is called with. On the connected example transport,
  \<^verbatim>\<open>disconnect()\<close> followed by \<^verbatim>\<open>send('{"id":1}')\<close> calls \<^verbatim>\<open>socket.end()\<close> and then
  makes one \<^verbatim>\<open>socket.write\<close> of the payload and one line feed, \<open>connected\<close> being
  still true; Node.js calls the callback of a write after \<^verbatim>\<open>end()\<close> with the error
  \<^verbatim>\<open>write after end\<close>. That call resolves the promise, as a call without an error
  does, although nothing was sent. The run is one the environment can produce.
\<close>

theorem C4_failed_write_resolves:
  "connected (tdata (exec JSON_parse [CallDisconnect] emitted_example))
   \<and> calls (exec JSON_parse [CallDisconnect, CallSend (JString ''{\"id\":1}'')] emitted_example) =
       calls emitted_example @
         [SocketEnd 0, SocketWrite 0 (''{\"id\":1}'' @ [CHR 0x0A]) ''utf8'' 2]
   \<and> promises (exec JSON_parse [CallDisconnect, CallSend (JString ''{\"id\":1}'')] emitted_example) ! 2
       = (OpSend, Pending)
   \<and> promises
        (exec JSON_parse
           [CallDisconnect, CallSend (JString ''{\"id\":1}''),
            WriteCallback 2 (Some (JsError Error ''write after end''))]
           emitted_example) ! 2
       = (OpSend, Resolved)
   \<and> promises
        (exec JSON_parse
           [CallDisconnect, CallSend (JString ''{\"id\":1}''), WriteCallback 2 None]
           emitted_example) ! 2
       = (OpSend, Resolved)
   \<and> reachable JSON_parse
        (exec JSON_parse
           [CallDisconnect, CallSend (JString ''{\"id\":1}''),
            WriteCallback 2 (Some (JsError Error ''write after end''))]
           emitted_example)"
proof -
  let ?sent = "[CallDisconnect, CallSend (JString ''{\"id\":1}'')]"
  let ?failed = "[CallDisconnect, CallSend (JString ''{\"id\":1}''),
            WriteCallback 2 (Some (JsError Error ''write after end''))]"
  have a: "connected (tdata (exec JSON_parse [CallDisconnect] emitted_example))" by code_simp
  have b: "calls (exec JSON_parse ?sent emitted_example) =
       calls emitted_example @
         [SocketEnd 0, SocketWrite 0 (''{\"id\":1}'' @ [CHR 0x0A]) ''utf8'' 2]"
    by code_simp
  have c: "promises (exec JSON_parse ?sent emitted_example) ! 2 = (OpSend, Pending)"
    by code_simp
  have d: "promises (exec JSON_parse ?failed emitted_example) ! 2 = (OpSend, Resolved)"
    by code_simp
  have e: "promises
        (exec JSON_parse
           [CallDisconnect, CallSend (JString ''{\"id\":1}''), WriteCallback 2 None]
           emitted_example) ! 2
       = (OpSend, Resolved)"
    by code_simp
  have "admissible JSON_parse ?failed emitted_example" by code_simp
  from reachable_exec[OF reachable_emitted_example this]
  have f: "reachable JSON_parse (exec JSON_parse ?failed emitted_example)" .
  from a b c d e f show ?thesis by (simp del: fire.simps)
qed

text \<open>
  C5 (\<^verbatim>\<open>disconnect\<close> and the notification of an earlier handle). No promise of
  \<^verbatim>\<open>disconnect\<close> is rejected, and what \<^verbatim>\<open>disconnect\<close> and the expiry of its timeout
  do is as the claim says: \<open>promise_inv\<close> with \<open>reachable_invariants\<close>,
  \<open>disconnect_without_handle\<close>, \<open>disconnect_with_handle\<close> and \<open>timer_expiry\<close>
  above. But the promise is resolved by the next \<^verbatim>\<open>disconnected\<close> notification that
  is emitted, whichever handle it reports (\<open>pending_disconnect_step\<close>), while the
  documentation of \<^verbatim>\<open>disconnect\<close> says that it \<^verbatim>\<open>Resolves once disconnected\<close>. The close
  handler frees the handle at once and defers the notification. On the connected
  example transport let the socket close, and before the deferred callback runs let
  the consumer call \<^verbatim>\<open>connect()\<close>, which installs handle 1, and \<^verbatim>\<open>disconnect()\<close>, which
  returns a pending promise, starts the timeout and calls \<^verbatim>\<open>end()\<close> on handle 1. The
  notification of handle 0 is emitted next: it resolves that promise and clears its
  timeout, and rejects the promise of \<^verbatim>\<open>connect()\<close>. Handle 1 is still installed, it
  has reported no close, and no timeout is left to destroy it. The run is one the
  environment can produce.
\<close>

theorem C5_stale_notification_resolves:
  "immediates (exec JSON_parse [Close] emitted_example) = [Disconnected None]
   \<and> socket (tdata (exec JSON_parse [Close, CallConnect, CallDisconnect] emitted_example)) = Some 1
   \<and> promises (exec JSON_parse [Close, CallConnect, CallDisconnect] emitted_example) =
       [(OpConnect, Resolved), (OpConnect, Pending), (OpDisconnect, Pending)]
   \<and> timers (exec JSON_parse [Close, CallConnect, CallDisconnect] emitted_example) = [(0, 5000, 1)]
   \<and> listeners (exec JSON_parse [Close, CallConnect, CallDisconnect] emitted_example) =
       [(EvConnected, ConnectOnConnected 1), (EvDisconnected, ConnectOnDisconnected 1),
        (EvDisconnected, DisconnectOnDisconnected 2 0)]
   \<and> promises (exec JSON_parse [Close, CallConnect, CallDisconnect, RunImmediate] emitted_example) =
       [(OpConnect, Resolved), (OpConnect, Rejected (JsError Error ''Connection failed'')),
        (OpDisconnect, Resolved)]
   \<and> emitted (exec JSON_parse [Close, CallConnect, CallDisconnect, RunImmediate] emitted_example) =
       [Connected, Disconnected None]
   \<and> socket (tdata (exec JSON_parse [Close, CallConnect, CallDisconnect, RunImmediate] emitted_example))
       = Some 1
   \<and> timers (exec JSON_parse [Close, CallConnect, CallDisconnect, RunImmediate] emitted_example) = []
   \<and> immediates (exec JSON_parse [Close, CallConnect, CallDisconnect, RunImmediate] emitted_example) = []
   \<and> SocketEnd 1 \<in> set (calls (exec JSON_parse [Close, CallConnect, CallDisconnect, RunImmediate]
        emitted_example))
   \<and> SocketDestroy 1 \<notin> set (calls (exec JSON_parse [Close, CallConnect, CallDisconnect, RunImmediate]
        emitted_example))
   \<and> reachable JSON_parse
        (exec JSON_parse [Close, CallConnect, CallDisconnect, RunImmediate] emitted_example)"
proof -
  let ?called = "exec JSON_parse [Close, CallConnect, CallDisconnect] emitted_example"
  let ?es = "[Close, CallConnect, CallDisconnect, RunImmediate]"
  let ?w = "exec JSON_parse ?es emitted_example"
  have a: "immediates (exec JSON_parse [Close] emitted_example) = [Disconnected None]"
    by code_simp
  have b: "socket (tdata ?called) = Some 1"
    "promises ?called = [(OpConnect, Resolved), (OpConnect, Pending), (OpDisconnect, Pending)]"
    "timers ?called = [(0, 5000, 1)]"
    "listeners ?called =
       [(EvConnected, ConnectOnConnected 1), (EvDisconnected, ConnectOnDisconnected 1),
        (EvDisconnected, DisconnectOnDisconnected 2 0)]"
    by code_simp+
  have c: "promises ?w =
       [(OpConnect, Resolved), (OpConnect, Rejected (JsError Error ''Connection failed'')),
        (OpDisconnect, Resolved)]"
    "emitted ?w = [Connected, Disconnected None]"
    "socket (tdata ?w) = Some 1"
    "timers ?w = []"
    "immediates ?w = []"
    by code_simp+
  have d: "SocketEnd 1 \<in> set (calls ?w)" "SocketDestroy 1 \<notin> set (calls ?w)"
    by code_simp+
  have "admissible JSON_parse ?es emitted_example" by code_simp
  from reachable_exec[OF reachable_emitted_example this]
  have e: "reachable JSON_parse ?w" .
  from a b c d e show ?thesis by (simp del: fire.simps)
qed

text \<open>
  C6 (as the code has it). The \<^verbatim>\<open>timeout\<close> event runs \<^verbatim>\<open>disconnect\<close> on the state
  whose pending error is \<^verbatim>\<open>Error('Connection timed out')\<close>: with a handle it calls
  \<^verbatim>\<open>socket.end()\<close> and starts the 5000 ms timeout. When the socket then closes, after
  any events \<open>es\<close> that hold no close, the close handler schedules one
  \<^verbatim>\<open>disconnected\<close> notification, which carries the error that is pending at that
  moment; it is the only \<^verbatim>\<open>disconnected\<close> notification added since the state in which
  the timeout was reported; the handle is \<^verbatim>\<open>null\<close>, \<open>connected\<close> is false and the
  pending error is cleared; and running the scheduled callbacks emits what was
  scheduled. The pending error is still the timeout error when among \<open>es\<close> the
  socket raises no \<^verbatim>\<open>error\<close> and completes no handshake.
\<close>

theorem C6_timeout_teardown:
  assumes "\<forall>e \<in> set es. e \<noteq> Close"
  shows "fire parse Timeout w =
          disconnect (w\<lparr>tdata := (tdata w)\<lparr>error := Some (JsError Error ''Connection timed out'')\<rparr>\<rparr>)
    \<and> error (tdata (fire parse Timeout w)) = Some (JsError Error ''Connection timed out'')
    \<and> (\<forall>s. socket (tdata w) = Some s \<longrightarrow>
          calls (fire parse Timeout w) = calls w @ [SocketEnd s] \<and>
          timers (fire parse Timeout w) = timers w @ [(next_timer w, 5000, s)])
    \<and> immediates (fire parse Close (exec parse es (fire parse Timeout w))) =
        immediates (exec parse es (fire parse Timeout w)) @
          [Disconnected (error (tdata (exec parse es (fire parse Timeout w))))]
    \<and> disconnections (fire parse Close (exec parse es (fire parse Timeout w))) =
        disconnections w @ [Disconnected (error (tdata (exec parse es (fire parse Timeout w))))]
    \<and> ((\<forall>e \<in> set es. e \<noteq> SecureConnect \<and> (\<forall>err. e \<noteq> SocketError err)) \<longrightarrow>
          error (tdata (exec parse es (fire parse Timeout w))) =
            Some (JsError Error ''Connection timed out''))
    \<and> socket (tdata (fire parse Close (exec parse es (fire parse Timeout w)))) = None
    \<and> \<not> connected (tdata (fire parse Close (exec parse es (fire parse Timeout w))))
    \<and> error (tdata (fire parse Close (exec parse es (fire parse Timeout w)))) = None
    \<and> emitted (flush parse (fire parse Close (exec parse es (fire parse Timeout w)))) =
        emitted (fire parse Close (exec parse es (fire parse Timeout w))) @
        immediates (fire parse Close (exec parse es (fire parse Timeout w)))"
proof -
  let ?timeout = "JsError Error ''Connection timed out''"
  let ?t = "fire parse Timeout w"
  let ?w' = "exec parse es ?t"
  have a: "?t = disconnect (w\<lparr>tdata := (tdata w)\<lparr>error := Some ?timeout\<rparr>\<rparr>)"
    by (simp add: onSocketTimeout_def)
  have b: "error (tdata ?t) = Some ?timeout"
    by (simp add: onSocketTimeout_def tdata_disconnect)
  have c: "\<forall>s. socket (tdata w) = Some s \<longrightarrow>
          calls ?t = calls w @ [SocketEnd s] \<and>
          timers ?t = timers w @ [(next_timer w, 5000, s)]"
    by (simp add: onSocketTimeout_def disconnect_def Let_def new_promise_def setTimeout_def
        once_def socket_call_def)
  have d0: "disconnections ?t = disconnections w"
    by (rule disconnections_fire) simp
  from exec_disconnections[OF assms, of parse ?t] d0
  have d: "disconnections ?w' = disconnections w" by simp
  have f: "immediates (fire parse Close ?w') = immediates ?w' @ [Disconnected (error (tdata ?w'))]"
    by (simp add: onSocketClose_def setImmediate_def)
  have g: "disconnections (fire parse Close ?w') =
      disconnections w @ [Disconnected (error (tdata ?w'))]"
    using d by (simp add: disconnections_def onSocketClose_def setImmediate_def is_Disconnected_def)
  have e: "(\<forall>e \<in> set es. e \<noteq> SecureConnect \<and> (\<forall>err. e \<noteq> SocketError err)) \<longrightarrow>
      error (tdata ?w') = Some ?timeout"
  proof
    assume "\<forall>e \<in> set es. e \<noteq> SecureConnect \<and> (\<forall>err. e \<noteq> SocketError err)"
    with assms
    have "\<forall>e \<in> set es. e \<noteq> SecureConnect \<and> e \<noteq> Close \<and> (\<forall>err. e \<noteq> SocketError err)"
      by blast
    from exec_benign[OF this b] show "error (tdata ?w') = Some ?timeout" by blast
  qed
  have h: "socket (tdata (fire parse Close ?w')) = None"
    "\<not> connected (tdata (fire parse Close ?w'))"
    "error (tdata (fire parse Close ?w')) = None"
    by (simp_all add: onSocketClose_def setImmediate_def)
  from flush_eq[of parse "fire parse Close ?w'"]
  have i: "emitted (flush parse (fire parse Close ?w')) =
      emitted (fire parse Close ?w') @ immediates (fire parse Close ?w')"
    by blast
  from a b c f g e h i show ?thesis by blast
qed

theorem C6_timeout_teardown_witness:
  "calls (fire JSON_parse Timeout emitted_example) = calls emitted_example @ [SocketEnd 0]
   \<and> timers (fire JSON_parse Timeout emitted_example) = [(0, 5000, 0)]
   \<and> error (tdata
        (exec JSON_parse [SocketData (''[]'' @ [CHR 0x0A]), TimerExpires 0, RunImmediate]
           (fire JSON_parse Timeout emitted_example)))
      = Some (JsError Error ''Connection timed out'')
   \<and> disconnections
        (fire JSON_parse Close
           (exec JSON_parse [SocketData (''[]'' @ [CHR 0x0A]), TimerExpires 0, RunImmediate]
              (fire JSON_parse Timeout emitted_example)))
      = [Disconnected (Some (JsError Error ''Connection timed out''))]
   \<and> socket (tdata
        (fire JSON_parse Close
           (exec JSON_parse [SocketData (''[]'' @ [CHR 0x0A]), TimerExpires 0, RunImmediate]
              (fire JSON_parse Timeout emitted_example)))) = None
   \<and> emitted (flush JSON_parse
        (fire JSON_parse Close
           (exec JSON_parse [SocketData (''[]'' @ [CHR 0x0A]), TimerExpires 0, RunImmediate]
              (fire JSON_parse Timeout emitted_example))))
      = [Connected, Data (JArray []), Disconnected (Some (JsError Error ''Connection timed out''))]"
proof -
  let ?es = "[SocketData (''[]'' @ [CHR 0x0A]), TimerExpires 0, RunImmediate]"
  let ?w' = "exec JSON_parse ?es (fire JSON_parse Timeout emitted_example)"
  let ?w = "fire JSON_parse Close ?w'"
  have hyp: "\<forall>e \<in> set ?es. e \<noteq> Close" by simp
  have hyp2: "\<forall>e \<in> set ?es. e \<noteq> SecureConnect \<and> (\<forall>err. e \<noteq> SocketError err)" by simp
  have d0: "disconnections emitted_example = []" by code_simp
  have t0: "timers emitted_example = []" "next_timer emitted_example = 0" by code_simp+
  have em: "emitted ?w = [Connected, Data (JArray [])]" by code_simp
  note inst = C6_timeout_teardown[OF hyp, of JSON_parse emitted_example]
  note c3 = inst[THEN conjunct2, THEN conjunct2, THEN conjunct1, rule_format,
      OF socket_emitted_example]
  note c4 = inst[THEN conjunct2, THEN conjunct2, THEN conjunct2, THEN conjunct1]
  note c5 = inst[THEN conjunct2, THEN conjunct2, THEN conjunct2, THEN conjunct2, THEN conjunct1]
  note c6 = inst[THEN conjunct2, THEN conjunct2, THEN conjunct2, THEN conjunct2, THEN conjunct2,
      THEN conjunct1, THEN mp, OF hyp2]
  note c7 = inst[THEN conjunct2, THEN conjunct2, THEN conjunct2, THEN conjunct2, THEN conjunct2,
      THEN conjunct2, THEN conjunct1]
  note c10 = inst[THEN conjunct2, THEN conjunct2, THEN conjunct2, THEN conjunct2, THEN conjunct2,
      THEN conjunct2, THEN conjunct2, THEN conjunct2, THEN conjunct2]
  from c3 t0
  have a: "calls (fire JSON_parse Timeout emitted_example) = calls emitted_example @ [SocketEnd 0]"
    "timers (fire JSON_parse Timeout emitted_example) = [(0, 5000, 0)]"
    by (simp_all del: fire.simps)
  have b: "disconnections ?w = [Disconnected (Some (JsError Error ''Connection timed out''))]"
    unfolding c5 c6 d0 by simp
  have im: "immediates ?w' = []" by code_simp
  have c: "emitted (flush JSON_parse ?w) =
      [Connected, Data (JArray []), Disconnected (Some (JsError Error ''Connection timed out''))]"
    unfolding c10 c4 c6 em im by simp
  from a b c c6 c7 show ?thesis by (simp del: fire.simps)
qed

text \<open>
  C6 as stated fails when the socket raises an error between its timeout and its
  close. On the connected example transport the timeout records the timeout error
  and calls \<^verbatim>\<open>socket.end()\<close>; the connection is then reset, and the error handler
  replaces the pending error; the \<^verbatim>\<open>disconnected\<close> notification of the close carries
  \<^verbatim>\<open>read ECONNRESET\<close> and no notification carries the timeout error. The run is one
  the environment can produce.
\<close>

theorem C6_counterexample:
  "error (tdata (exec JSON_parse [Timeout] emitted_example)) =
       Some (JsError Error ''Connection timed out'')
   \<and> immediates
        (exec JSON_parse [Timeout, SocketError (JsError Error ''read ECONNRESET''), Close]
           emitted_example)
       = [Disconnected (Some (JsError Error ''read ECONNRESET''))]
   \<and> emitted
        (exec JSON_parse
           [Timeout, SocketError (JsError Error ''read ECONNRESET''), Close, RunImmediate]
           emitted_example)
       = [Connected, Disconnected (Some (JsError Error ''read ECONNRESET''))]
   \<and> immediates
        (exec JSON_parse
           [Timeout, SocketError (JsError Error ''read ECONNRESET''), Close, RunImmediate]
           emitted_example)
       = []
   \<and> socket (tdata
        (exec JSON_parse
           [Timeout, SocketError (JsError Error ''read ECONNRESET''), Close, RunImmediate]
           emitted_example))
       = None
   \<and> reachable JSON_parse
        (exec JSON_parse
           [Timeout, SocketError (JsError Error ''read ECONNRESET''), Close, RunImmediate]
           emitted_example)"
proof -
  let ?closed = "[Timeout, SocketError (JsError Error ''read ECONNRESET''), Close]"
  let ?es = "[Timeout, SocketError (JsError Error ''read ECONNRESET''), Close, RunImmediate]"
  have a: "error (tdata (exec JSON_parse [Timeout] emitted_example)) =
       Some (JsError Error ''Connection timed out'')"
    by code_simp
  have b: "immediates (exec JSON_parse ?closed emitted_example)
       = [Disconnected (Some (JsError Error ''read ECONNRESET''))]"
    by code_simp
  have c: "emitted (exec JSON_parse ?es emitted_example)
       = [Connected, Disconnected (Some (JsError Error ''read ECONNRESET''))]"
    "immediates (exec JSON_parse ?es emitted_example) = []"
    "socket (tdata (exec JSON_parse ?es emitted_example)) = None"
    by code_simp+
  have "admissible JSON_parse ?es emitted_example" by code_simp
  from reachable_exec[OF reachable_emitted_example this]
  have d: "reachable JSON_parse (exec JSON_parse ?es emitted_example)" .
  from a b c d show ?thesis by (simp del: fire.simps)
qed

text \<open>
  C7 (as the code has it). The constructor throws exactly when \<^verbatim>\<open>host\<close> is not a
  non-empty string, or \<^verbatim>\<open>port\<close> is not a number from 1 to 65535 (whether it is an
  integer is not checked), or \<^verbatim>\<open>extra\<close> is neither \<^verbatim>\<open>undefined\<close>, \<^verbatim>\<open>null\<close> nor a
  plain object; what it throws is a TypeError. On success the transport is new (no
  handle, not connected, no error) and the stored option \<^verbatim>\<open>rejectUnauthorized\<close> is
  the value \<^verbatim>\<open>extra\<close> gives for it, and \<^verbatim>\<open>true\<close> when \<^verbatim>\<open>extra\<close> gives none.
\<close>

theorem C7_constructor_validation:
  "((\<exists>e. TLSTransport host port extra = Inl e) \<longleftrightarrow>
       \<not> (\<exists>s. host = JString s \<and> s \<noteq> [])
       \<or> \<not> (\<exists>q. port = JNumber (Finite q) \<and> 1 \<le> q \<and> q \<le> 65535)
       \<or> \<not> (extra = JUndefined \<or> extra = JNull \<or> (\<exists>ps. extra = JObject ps)))
   \<and> (\<forall>e. TLSTransport host port extra = Inl e \<longrightarrow> (\<exists>message. e = JsError TypeError message))
   \<and> (\<forall>w. TLSTransport host port extra = Inr w \<longrightarrow>
          w = initial (options (tdata w)) \<and>
          own_property (options (tdata w)) ''rejectUnauthorized'' =
            Some (case extra_property extra ''rejectUnauthorized'' of
                    Some v \<Rightarrow> v
                  | None \<Rightarrow> JBoolean True))"
proof -
  have p: "property_of [(''host'', host), (''port'', port), (''path'', JUndefined), (''socket'', JUndefined)]
      ''rejectUnauthorized'' = None"
    by (simp add: property_of_def)
  show ?thesis
    unfolding TLSTransport_eq check_nonEmptyString_iff check_inRange_port_iff check_maybe_object_iff
    by (auto simp: initial_def own_property_Object_assign2 p split: option.splits)
qed

theorem C7_constructor_validation_witness:
  "TLSTransport (JString ''example.com'') (JNumber (Finite 1234))
       (JObject [(''rejectUnauthorized'', JBoolean False)])
     = Inr (initial (plain_object
         [(''rejectUnauthorized'', JBoolean False), (''host'', JString ''example.com''),
          (''port'', JNumber (Finite 1234)), (''path'', JUndefined), (''socket'', JUndefined)]))
   \<and> own_property
        (plain_object
           [(''rejectUnauthorized'', JBoolean False), (''host'', JString ''example.com''),
            (''port'', JNumber (Finite 1234)), (''path'', JUndefined), (''socket'', JUndefined)])
        ''rejectUnauthorized'' = Some (JBoolean False)
   \<and> own_property (options (tdata example_transport)) ''rejectUnauthorized'' = Some (JBoolean True)
   \<and> TLSTransport (JString []) (JNumber (Finite 1234)) JUndefined
        = Inl (JsError TypeError ''missing/invalid \"host\" option'')
   \<and> TLSTransport (JString ''example.com'') (JNumber (Finite 65536)) JUndefined
        = Inl (JsError TypeError ''missing/invalid \"port\" option'')
   \<and> TLSTransport (JString ''example.com'') (JNumber (Finite 1234)) (JArray [])
        = Inl (JsError TypeError ''invalid \"extra\" option'')"
proof -
  let ?opts = "plain_object
         [(''rejectUnauthorized'', JBoolean False), (''host'', JString ''example.com''),
          (''port'', JNumber (Finite 1234)), (''path'', JUndefined), (''socket'', JUndefined)]"
  have a: "TLSTransport (JString ''example.com'') (JNumber (Finite 1234))
       (JObject [(''rejectUnauthorized'', JBoolean False)]) = Inr (initial ?opts)"
    by (simp add: TLSTransport_eq check_nonEmptyString_iff check_inRange_port_iff
        check_maybe_object_iff Object_assign_def Set_property_def plain_object_def)
  have o: "options (tdata (initial ?opts)) = ?opts" by (simp add: initial_def)
  have x: "extra_property (JObject [(''rejectUnauthorized'', JBoolean False)]) ''rejectUnauthorized''
      = Some (JBoolean False)"
    by (simp add: extra_property_def property_of_def)
  from C7_constructor_validation[of "JString ''example.com''" "JNumber (Finite 1234)"
      "JObject [(''rejectUnauthorized'', JBoolean False)]", THEN conjunct2, THEN conjunct2,
      rule_format, OF a]
  have b: "own_property ?opts ''rejectUnauthorized'' = Some (JBoolean False)"
    unfolding o x by simp
  have xu: "extra_property JUndefined ''rejectUnauthorized'' = None"
    by (simp add: extra_property_def)
  from C7_constructor_validation[of "JString ''example.com''" "JNumber (Finite 1234)" JUndefined,
      THEN conjunct2, THEN conjunct2, rule_format, OF TLSTransport_example]
  have c: "own_property (options (tdata example_transport)) ''rejectUnauthorized'' = Some (JBoolean True)"
    unfolding xu by simp
  have d: "TLSTransport (JString []) (JNumber (Finite 1234)) JUndefined
        = Inl (JsError TypeError ''missing/invalid \"host\" option'')"
    "TLSTransport (JString ''example.com'') (JNumber (Finite 65536)) JUndefined
        = Inl (JsError TypeError ''missing/invalid \"port\" option'')"
    "TLSTransport (JString ''example.com'') (JNumber (Finite 1234)) (JArray [])
        = Inl (JsError TypeError ''invalid \"extra\" option'')"
    by (simp_all add: TLSTransport_eq check_nonEmptyString_iff check_inRange_port_iff
        check_maybe_object_iff)
  from a b c d show ?thesis by simp
qed

text \<open>
  C7 as stated fails on a port that is in range and not an integer: \<^verbatim>\<open>inRange\<close>
  accepts 80.5 and the constructor returns a transport with that port.
\<close>

theorem C7_counterexample:
  "(161 / 2 :: rat) \<notin> \<int>
   \<and> TLSTransport (JString ''example.com'') (JNumber (Finite (161 / 2))) JUndefined
       = Inr (initial (plain_object
           [(''rejectUnauthorized'', JBoolean True), (''host'', JString ''example.com''),
            (''port'', JNumber (Finite (161 / 2))), (''path'', JUndefined),
            (''socket'', JUndefined)]))"
proof -
  have "(161 / 2 :: rat) \<notin> \<int>"
  proof
    assume "(161 / 2 :: rat) \<in> \<int>"
    then obtain n :: int where "(161 / 2 :: rat) = of_int n" by (auto elim: Ints_cases)
    then have "(161 :: rat) = of_int (2 * n)" by simp
    then have "(161 :: int) = 2 * n" by (metis of_int_eq_iff of_int_numeral)
    then show False by presburger
  qed
  moreover have "TLSTransport (JString ''example.com'') (JNumber (Finite (161 / 2))) JUndefined
       = Inr (initial (plain_object
           [(''rejectUnauthorized'', JBoolean True), (''host'', JString ''example.com''),
            (''port'', JNumber (Finite (161 / 2))), (''path'', JUndefined),
            (''socket'', JUndefined)]))"
    by (simp add: TLSTransport_eq check_nonEmptyString_iff check_inRange_def
        check_greaterOrEqual_def check_lessOrEqual_def check_number_def
        check_maybe_object_iff Object_assign_def Set_property_def plain_object_def)
  ultimately show ?thesis by simp
qed

text \<open>
  C8. In every reachable state: when no handle exists the pending error is \<^verbatim>\<open>null\<close>;
  the handshake handler clears the pending error; the close handler attaches the
  pending error to the \<^verbatim>\<open>disconnected\<close> notification it schedules and clears it; and
  a \<^verbatim>\<open>connect\<close> that creates a handle starts the new session with no pending error.
\<close>

theorem C8_pending_error:
  assumes "reachable parse w"
  shows "(socket (tdata w) = None \<longrightarrow> error (tdata w) = None)
    \<and> error (tdata (onSocketSecureConnect w)) = None
    \<and> immediates (onSocketClose w) = immediates w @ [Disconnected (error (tdata w))]
    \<and> error (tdata (onSocketClose w)) = None
    \<and> (socket (tdata w) = None \<longrightarrow> error (tdata (connect w)) = None)"
proof -
  from reachable_invariants[OF assms] have "socket (tdata w) = None \<longrightarrow> error (tdata w) = None"
    by (simp add: data_inv_def)
  then show ?thesis
    by (simp add: onSocketSecureConnect_def onSocketClose_def setImmediate_def tdata_connect)
qed

theorem C8_pending_error_witness:
  "error (tdata errored_example) = Some (JsError Error ''read ECONNRESET'')
   \<and> immediates (onSocketClose errored_example) = [Disconnected (Some (JsError Error ''read ECONNRESET''))]
   \<and> error (tdata (onSocketClose errored_example)) = None
   \<and> socket (tdata (onSocketClose errored_example)) = None
   \<and> error (tdata (connect (onSocketClose errored_example))) = None
   \<and> error (tdata (onSocketSecureConnect errored_example)) = None"
proof -
  have e: "error (tdata errored_example) = Some (JsError Error ''read ECONNRESET'')"
    and i: "immediates errored_example = []"
    and s: "socket (tdata errored_example) \<noteq> None"
    by code_simp+
  have sc: "socket (tdata (onSocketClose errored_example)) = None"
    by (simp add: onSocketClose_def setImmediate_def)
  have r: "reachable JSON_parse (onSocketClose errored_example)"
    using reachable_fire[OF reachable_errored_example, of Close JSON_parse] s by simp
  from C8_pending_error[OF reachable_errored_example[of JSON_parse]] e i
    C8_pending_error[OF r] sc
  show ?thesis by simp
qed

text \<open>
  C9. The close handler changes the fields \<open>error\<close>, \<open>socket\<close> and \<open>connected\<close> of
  the transport's data and no other: the buffer and the options are as before. No
  event other than data changes the buffer, so after any events \<open>es\<close> without data
  (a close and a new \<^verbatim>\<open>connect\<close> among them) the next chunk is parsed behind the text
  the buffer held: an unterminated line of one session is the head of the first line
  of the next.
\<close>

theorem C9_buffer_survives_close:
  assumes "\<forall>e \<in> set es. \<forall>chunk. e \<noteq> SocketData chunk"
  shows "tdata (onSocketClose w) = (tdata w)\<lparr>error := None, socket := None, connected := False\<rparr>
    \<and> buffer (tdata (onSocketClose w)) = buffer (tdata w)
    \<and> options (tdata (onSocketClose w)) = options (tdata w)
    \<and> inboundBuffer (exec parse es w) = inboundBuffer w
    \<and> (\<forall>chunk.
          immediates (onSocketData parse chunk (exec parse es w)) =
            immediates (exec parse es w) @
              concat (map (notification_for parse) (complete_lines (inboundBuffer w @ chunk))))"
proof -
  from exec_buffer[OF assms, of parse w]
  have b: "inboundBuffer (exec parse es w) = inboundBuffer w"
    by (simp add: inboundBuffer_def)
  then show ?thesis
    by (simp add: onSocketClose_def setImmediate_def immediates_onSocketData)
qed

theorem C9_buffer_survives_close_witness:
  "inboundBuffer partial_example = ''{\"a\":''
   \<and> socket (tdata (exec JSON_parse [Close, RunImmediate, CallConnect, SecureConnect, RunImmediate]
        partial_example)) = Some 1
   \<and> inboundBuffer (exec JSON_parse [Close, RunImmediate, CallConnect, SecureConnect, RunImmediate]
        partial_example) = ''{\"a\":''
   \<and> immediates (onSocketData JSON_parse (''null}'' @ [CHR 0x0A])
        (exec JSON_parse [Close, RunImmediate, CallConnect, SecureConnect, RunImmediate]
           partial_example))
      = [Data (JObject [(''a'', JNull)])]"
proof -
  let ?es = "[Close, RunImmediate, CallConnect, SecureConnect, RunImmediate]"
  have hyp: "\<forall>e \<in> set ?es. \<forall>chunk. e \<noteq> SocketData chunk" by simp
  have b: "inboundBuffer partial_example = ''{\"a\":''" by code_simp
  have s: "socket (tdata (exec JSON_parse ?es partial_example)) = Some 1" by code_simp
  have i: "immediates (exec JSON_parse ?es partial_example) = []" by code_simp
  have ls: "complete_lines (''{\"a\":'' @ ''null}'' @ [CHR 0x0A]) = [''{\"a\":null}'']" by code_simp
  have n: "notification_for JSON_parse ''{\"a\":null}'' = [Data (JObject [(''a'', JNull)])]"
    by code_simp
  note inst = C9_buffer_survives_close[OF hyp, of partial_example JSON_parse]
  from inst b have c: "inboundBuffer (exec JSON_parse ?es partial_example) = ''{\"a\":''" by simp
  from inst have "immediates (onSocketData JSON_parse (''null}'' @ [CHR 0x0A])
        (exec JSON_parse ?es partial_example)) =
      immediates (exec JSON_parse ?es partial_example) @
        concat (map (notification_for JSON_parse)
          (complete_lines (inboundBuffer partial_example @ (''null}'' @ [CHR 0x0A]))))"
    by blast
  then have d: "immediates (onSocketData JSON_parse (''null}'' @ [CHR 0x0A])
        (exec JSON_parse ?es partial_example)) = [Data (JObject [(''a'', JNull)])]"
    unfolding b i ls by (simp add: n)
  from b s c d show ?thesis by simp
qed

text \<open>
  C10. On every transport the constructor returns, the stored options have the own
  properties \<^verbatim>\<open>host\<close> and \<^verbatim>\<open>port\<close> equal to the constructor's arguments and
  \<^verbatim>\<open>path\<close> and \<^verbatim>\<open>socket\<close> with the value \<^verbatim>\<open>undefined\<close>, whatever \<^verbatim>\<open>extra\<close> holds;
  every other key but \<^verbatim>\<open>__proto__\<close> has the value \<^verbatim>\<open>extra\<close> gives it,
  \<^verbatim>\<open>rejectUnauthorized\<close> being \<^verbatim>\<open>true\<close> when \<^verbatim>\<open>extra\<close> does not give it. An own
  property \<^verbatim>\<open>__proto__\<close> of \<^verbatim>\<open>extra\<close> (its keys being distinct) becomes no property
  of the options: its value becomes their prototype when it is an object or \<^verbatim>\<open>null\<close>
  and is ignored otherwise. An own property hides what the prototype holds for the
  key, so the four keys of the connection target read as the constructor set them.
\<close>

theorem C10_connection_target_fixed:
  assumes "TLSTransport host port extra = Inr w"
  shows "own_property (options (tdata w)) ''host'' = Some host
    \<and> own_property (options (tdata w)) ''port'' = Some port
    \<and> own_property (options (tdata w)) ''path'' = Some JUndefined
    \<and> own_property (options (tdata w)) ''socket'' = Some JUndefined
    \<and> (\<forall>k. k \<noteq> ''host'' \<and> k \<noteq> ''port'' \<and> k \<noteq> ''path'' \<and> k \<noteq> ''socket'' \<and> k \<noteq> ''__proto__'' \<longrightarrow>
          own_property (options (tdata w)) k =
            (case extra_property extra k of
               Some v \<Rightarrow> Some v
             | None \<Rightarrow> if k = ''rejectUnauthorized'' then Some (JBoolean True) else None))
    \<and> (unique_keys extra \<longrightarrow>
          own_property (options (tdata w)) ''__proto__'' = None \<and>
          prototype (options (tdata w)) =
            (case extra_property extra ''__proto__'' of
               Some v \<Rightarrow> if object_or_null v then Installed v else Object_prototype
             | None \<Rightarrow> Object_prototype))"
proof -
  let ?target = "[(''host'', host), (''port'', port), (''path'', JUndefined), (''socket'', JUndefined)]"
  from assms have o: "options (tdata w) =
      Object_assign (plain_object [(''rejectUnauthorized'', JBoolean True)]) [extra, JObject ?target]"
    by (auto simp: TLSTransport_eq initial_def split: if_splits)
  have a: "own_property (options (tdata w)) ''host'' = Some host"
    "own_property (options (tdata w)) ''port'' = Some port"
    "own_property (options (tdata w)) ''path'' = Some JUndefined"
    "own_property (options (tdata w)) ''socket'' = Some JUndefined"
    unfolding o by (simp_all add: own_property_Object_assign2 property_of_def)
  have b: "\<forall>k. k \<noteq> ''host'' \<and> k \<noteq> ''port'' \<and> k \<noteq> ''path'' \<and> k \<noteq> ''socket'' \<and> k \<noteq> ''__proto__'' \<longrightarrow>
          own_property (options (tdata w)) k =
            (case extra_property extra k of
               Some v \<Rightarrow> Some v
             | None \<Rightarrow> if k = ''rejectUnauthorized'' then Some (JBoolean True) else None)"
    unfolding o by (simp add: own_property_Object_assign2 property_of_def)
  have "''__proto__'' \<notin> fst ` set ?target" by simp
  from prototype_Object_assign2[OF _ this, of extra "''rejectUnauthorized''" "JBoolean True"]
  have c: "unique_keys extra \<longrightarrow>
          own_property (options (tdata w)) ''__proto__'' = None \<and>
          prototype (options (tdata w)) =
            (case extra_property extra ''__proto__'' of
               Some v \<Rightarrow> if object_or_null v then Installed v else Object_prototype
             | None \<Rightarrow> Object_prototype)"
    unfolding o by simp
  from a b c show ?thesis by blast
qed

theorem C10_connection_target_fixed_witness:
  "TLSTransport (JString ''example.com'') (JNumber (Finite 1234))
       (JObject [(''host'', JString ''evil.test''), (''port'', JNumber (Finite 1)),
                 (''path'', JString ''/tmp/sock''), (''socket'', JBoolean True),
                 (''servername'', JString ''sni.test''), (''rejectUnauthorized'', JBoolean False),
                 (''__proto__'', JObject [(''host'', JString ''evil.test'')])])
     = Inr (initial
         \<lparr>properties =
            [(''rejectUnauthorized'', JBoolean False), (''host'', JString ''example.com''),
             (''port'', JNumber (Finite 1234)), (''path'', JUndefined), (''socket'', JUndefined),
             (''servername'', JString ''sni.test'')],
          prototype = Installed (JObject [(''host'', JString ''evil.test'')])\<rparr>)
   \<and> own_property
         \<lparr>properties =
            [(''rejectUnauthorized'', JBoolean False), (''host'', JString ''example.com''),
             (''port'', JNumber (Finite 1234)), (''path'', JUndefined), (''socket'', JUndefined),
             (''servername'', JString ''sni.test'')],
          prototype = Installed (JObject [(''host'', JString ''evil.test'')])\<rparr>
         ''host'' = Some (JString ''example.com'')
   \<and> own_property
         \<lparr>properties =
            [(''rejectUnauthorized'', JBoolean False), (''host'', JString ''example.com''),
             (''port'', JNumber (Finite 1234)), (''path'', JUndefined), (''socket'', JUndefined),
             (''servername'', JString ''sni.test'')],
          prototype = Installed (JObject [(''host'', JString ''evil.test'')])\<rparr>
         ''servername'' = Some (JString ''sni.test'')
   \<and> own_property
         \<lparr>properties =
            [(''rejectUnauthorized'', JBoolean False), (''host'', JString ''example.com''),
             (''port'', JNumber (Finite 1234)), (''path'', JUndefined), (''socket'', JUndefined),
             (''servername'', JString ''sni.test'')],
          prototype = Installed (JObject [(''host'', JString ''evil.test'')])\<rparr>
         ''__proto__'' = None"
proof -
  let ?extra = "JObject [(''host'', JString ''evil.test''), (''port'', JNumber (Finite 1)),
                 (''path'', JString ''/tmp/sock''), (''socket'', JBoolean True),
                 (''servername'', JString ''sni.test''), (''rejectUnauthorized'', JBoolean False),
                 (''__proto__'', JObject [(''host'', JString ''evil.test'')])]"
  let ?opts = "\<lparr>properties =
            [(''rejectUnauthorized'', JBoolean False), (''host'', JString ''example.com''),
             (''port'', JNumber (Finite 1234)), (''path'', JUndefined), (''socket'', JUndefined),
             (''servername'', JString ''sni.test'')],
          prototype = Installed (JObject [(''host'', JString ''evil.test'')])\<rparr>"
  have a: "TLSTransport (JString ''example.com'') (JNumber (Finite 1234)) ?extra = Inr (initial ?opts)"
    by (simp add: TLSTransport_eq check_nonEmptyString_iff check_inRange_port_iff
        check_maybe_object_iff Object_assign_def Set_property_def plain_object_def
        proto_setter_def inherits_proto_accessor_def)
  have o: "options (tdata (initial ?opts)) = ?opts" by (simp add: initial_def)
  have x: "extra_property ?extra ''servername'' = Some (JString ''sni.test'')"
    by (simp add: extra_property_def property_of_def)
  have u: "unique_keys ?extra" by (simp add: unique_keys_def)
  note inst = C10_connection_target_fixed[OF a, unfolded o]
  from inst have b: "own_property ?opts ''host'' = Some (JString ''example.com'')" by blast
  from inst[THEN conjunct2, THEN conjunct2, THEN conjunct2, THEN conjunct2, THEN conjunct1,
      rule_format, of "''servername''"] x
  have c: "own_property ?opts ''servername'' = Some (JString ''sni.test'')" by simp
  from inst[THEN conjunct2, THEN conjunct2, THEN conjunct2, THEN conjunct2, THEN conjunct2,
      rule_format, OF u]
  have d: "own_property ?opts ''__proto__'' = None" by blast
  from a b c d show ?thesis by simp
qed

end
